theory Spec2Isabelle
  imports Complex_Main "HOL-Library.Word"
begin

section \<open>JavaScript numbers\<close>

text \<open>
  Every JavaScript number is an IEEE 754 binary64 value. A finite double is a rational, so
  a number is modelled as a \<^typ>\<open>rat\<close> and each arithmetic operation as the exact
  operation followed by rounding to the nearest double, ties to even (\<open>fl\<close>). Values of
  magnitude \<open>2 ^ 1024\<close> and above (\<open>Infinity\<close>) and \<open>NaN\<close> have no rational. The
  operations \<open>js_add\<close>, \<open>js_sub\<close>, \<open>js_mul\<close> and \<open>js_div\<close> are used where the theorems
  bound the operands so that neither arises and the divisor is not zero; the quotient
  \<open>1000 / fps\<close>, whose divisor nothing bounds, is \<open>js_divide\<close>, which has these values.

  Numbers that are integers by construction (bytes, loop counters, array indices, raster
  sizes, results of \<open>Math.floor\<close> and \<open>Math.round\<close>) are modelled as \<^typ>\<open>int\<close>:
  sums, differences and products of integers are exact in binary64 as long as every value
  stays below \<open>2 ^ 53\<close> in magnitude.
\<close>

type_synonym number = rat

text \<open>\<open>expo x\<close> is the binary exponent of a positive \<open>x\<close>: \<open>2 ^ expo x \<le> x < 2 ^ (expo x + 1)\<close>.\<close>

function expo_up :: "rat \<Rightarrow> int" where
  "expo_up x = (if 2 \<le> x then expo_up (x / 2) + 1 else 0)"
  by pat_completeness auto
termination
proof (relation "measure (\<lambda>x. nat \<lfloor>x\<rfloor>)")
  show "wf (measure (\<lambda>x::rat. nat \<lfloor>x\<rfloor>))" by simp
next
  fix x :: rat
  assume x: "2 \<le> x"
  then have "2 \<le> \<lfloor>x\<rfloor>" by (simp add: le_floor_iff)
  then have f: "(2::rat) \<le> of_int \<lfloor>x\<rfloor>" by (metis of_int_le_iff of_int_numeral)
  have "x < of_int \<lfloor>x\<rfloor> + 1" by linarith
  with f have "x < of_int \<lfloor>x\<rfloor> * 2" by linarith
  then have "x / 2 < of_int \<lfloor>x\<rfloor>" by simp
  then have "\<lfloor>x / 2\<rfloor> < \<lfloor>x\<rfloor>" by (simp add: floor_less_iff)
  moreover have "0 < \<lfloor>x\<rfloor>" using \<open>2 \<le> \<lfloor>x\<rfloor>\<close> by simp
  ultimately show "(x / 2, x) \<in> measure (\<lambda>x. nat \<lfloor>x\<rfloor>)" by simp
qed

function expo_down :: "rat \<Rightarrow> int" where
  "expo_down x = (if 0 < x \<and> x < 1 then expo_down (2 * x) - 1 else 0)"
  by pat_completeness auto
termination
proof (relation "measure (\<lambda>x. nat \<lfloor>1 / x\<rfloor>)")
  show "wf (measure (\<lambda>x::rat. nat \<lfloor>1 / x\<rfloor>))" by simp
next
  fix x :: rat
  assume a: "0 < x \<and> x < 1"
  define y where "y = 1 / x"
  have y: "1 \<le> y" using a by (simp add: y_def)
  then have "1 \<le> \<lfloor>y\<rfloor>" by (simp add: le_floor_iff)
  then have f: "(1::rat) \<le> of_int \<lfloor>y\<rfloor>" by (metis of_int_le_iff of_int_1)
  have "y < of_int \<lfloor>y\<rfloor> + 1" by linarith
  with f have "y < of_int \<lfloor>y\<rfloor> * 2" by linarith
  then have "y / 2 < of_int \<lfloor>y\<rfloor>" by simp
  then have "\<lfloor>y / 2\<rfloor> < \<lfloor>y\<rfloor>" by (simp add: floor_less_iff)
  moreover have "0 < \<lfloor>y\<rfloor>" using \<open>1 \<le> \<lfloor>y\<rfloor>\<close> by simp
  ultimately have "nat \<lfloor>y / 2\<rfloor> < nat \<lfloor>y\<rfloor>" by simp
  moreover have "1 / (2 * x) = y / 2" by (simp add: y_def)
  ultimately have "nat \<lfloor>1 / (2 * x)\<rfloor> < nat \<lfloor>1 / x\<rfloor>" by (simp only: y_def)
  then show "(2 * x, x) \<in> measure (\<lambda>x. nat \<lfloor>1 / x\<rfloor>)"
    by (simp only: in_measure)
qed

declare expo_up.simps [simp del] expo_down.simps [simp del]

definition expo :: "rat \<Rightarrow> int" where
  "expo x = (if x < 1 then expo_down x else expo_up x)"

text \<open>Rounding a rational to the nearest integer, a tie going to the even neighbour.\<close>

definition rne :: "rat \<Rightarrow> int" where
  "rne q = (let f = \<lfloor>q\<rfloor>; d = q - of_int f in
     if d < 1/2 then f else if 1/2 < d then f + 1 else if even f then f else f + 1)"

text \<open>
  The spacing of the doubles around \<open>x\<close>: 53 significant bits, and the fixed spacing
  \<open>2 ^ -1074\<close> of the subnormal range below \<open>2 ^ -1022\<close>.
\<close>

definition quantum :: "rat \<Rightarrow> rat" where
  "quantum x = 2 powi (max (expo \<bar>x\<bar>) (-1022) - 52)"

definition fl :: "rat \<Rightarrow> number" where
  "fl x = (let u = quantum x in of_int (rne (x / u)) * u)"

definition js_add :: "number \<Rightarrow> number \<Rightarrow> number" where
  "js_add a b = fl (a + b)"

definition js_sub :: "number \<Rightarrow> number \<Rightarrow> number" where
  "js_sub a b = fl (a - b)"

definition js_mul :: "number \<Rightarrow> number \<Rightarrow> number" where
  "js_mul a b = fl (a * b)"

definition js_div :: "number \<Rightarrow> number \<Rightarrow> number" where
  "js_div a b = fl (a / b)"

text \<open>
  The division with all its results: a quotient that rounds to \<open>2 ^ 1024\<close> or beyond
  overflows to an infinity, a non-zero number divided by zero is an infinity and zero
  divided by zero is \<open>NaN\<close>. A rational has no signed zero: the zero divisor stands for
  the positive zero.
\<close>

datatype js_quotient = Finite number | PosInfinity | NegInfinity | NotANumber

definition js_divide :: "number \<Rightarrow> number \<Rightarrow> js_quotient" where
  "js_divide a b =
     (if b = 0 then (if a = 0 then NotANumber else if 0 < a then PosInfinity else NegInfinity)
      else (let q = fl (a / b)
            in if 2 ^ 1024 \<le> q then PosInfinity
               else if q \<le> - (2 ^ 1024) then NegInfinity
               else Finite q))"

text \<open>\<open>Math.floor\<close>, and \<open>Math.round\<close>, which rounds a tie towards plus infinity.\<close>

definition js_floor :: "number \<Rightarrow> int" where
  "js_floor x = \<lfloor>x\<rfloor>"

definition js_round :: "number \<Rightarrow> int" where
  "js_round x = \<lfloor>x + 1 / 2\<rfloor>"

section \<open>Pixel Mapper\<close>

text \<open>\<open>const ASCII_CHARS = ' .:-=+*#%@'\<close> and \<open>const RESET = '\x1b[0m'\<close>.\<close>

definition ASCII_CHARS :: string where
  "ASCII_CHARS = '' .:-=+*#%@''"

definition RESET :: string where
  "RESET = CHR 0x1B # ''[0m''"

text \<open>
  \<open>rgbToAnsi256(r, g, b)\<close>, on the integer components it is called with. The quotients
  and their products are rounded doubles; the integer sums around them are exact.
\<close>

definition rgbToAnsi256 :: "int \<Rightarrow> int \<Rightarrow> int \<Rightarrow> int" where
  "rgbToAnsi256 r g b =
     (if r = g \<and> g = b then
        (if r < 8 then 16
         else if r > 248 then 231
         else js_round (js_mul (js_div (of_int (r - 8)) 247) 24) + 232)
      else
        16 + 36 * js_round (js_mul (js_div (of_int r) 255) 5)
           + 6 * js_round (js_mul (js_div (of_int g) 255) 5)
           + js_round (js_mul (js_div (of_int b) 255) 5))"

text \<open>
  The colour quantisation as the specification words it, in exact arithmetic with
  rounding to the nearest integer.
\<close>

definition ansi256_spec :: "int \<Rightarrow> int \<Rightarrow> int \<Rightarrow> int" where
  "ansi256_spec r g b =
     (if r = g \<and> g = b then
        (if r < 8 then 16
         else if r > 248 then 231
         else 232 + round ((of_int r - 8) / 247 * 24 :: rat))
      else
        16 + 36 * round (of_int r / 255 * 5 :: rat)
           + 6 * round (of_int g / 255 * 5 :: rat)
           + round (of_int b / 255 * 5 :: rat))"

text \<open>
  The brightness of a pixel and the index into the ramp, lines 199 and 200 of
  \<open>renderFrame\<close>. The literals \<open>0.299\<close>, \<open>0.587\<close> and \<open>0.114\<close> denote the doubles
  nearest to them.
\<close>

definition brightness :: "int \<Rightarrow> int \<Rightarrow> int \<Rightarrow> number" where
  "brightness r g b =
     js_div (js_add (js_add (js_mul (of_int r) (fl (299 / 1000)))
                            (js_mul (of_int g) (fl (587 / 1000))))
                    (js_mul (of_int b) (fl (114 / 1000))))
            255"

definition charIndex :: "number \<Rightarrow> int" where
  "charIndex luma = js_floor (js_mul luma (of_int (int (length ASCII_CHARS) - 1)))"

text \<open>Indexing a string: \<open>undefined\<close> (\<open>None\<close>) outside its range.\<close>

definition charAt :: "string \<Rightarrow> int \<Rightarrow> char option" where
  "charAt s i = (if 0 \<le> i \<and> i < int (length s) then Some (s ! nat i) else None)"

definition glyph :: "int \<Rightarrow> int \<Rightarrow> int \<Rightarrow> char option" where
  "glyph r g b = charAt ASCII_CHARS (charIndex (brightness r g b))"



section \<open>Dimension Fitter\<close>

record dimensions =
  width :: int
  height :: int

text \<open>
  \<open>getTerminalSize\<close>: \<open>process.stdout.columns\<close> and \<open>rows\<close> are \<open>undefined\<close> when the
  output is not a terminal; \<open>||\<close> also replaces a zero.
\<close>

definition getTerminalSize :: "int option \<Rightarrow> int option \<Rightarrow> dimensions" where
  "getTerminalSize columns rows =
     \<lparr>width = (case columns of None \<Rightarrow> 80 | Some c \<Rightarrow> if c = 0 then 80 else c),
      height = (case rows of None \<Rightarrow> 24 | Some r \<Rightarrow> if r = 0 then 24 else r)\<rparr>"

text \<open>
  \<open>calculateAspectRatioDimensions\<close>. The terminal size it asks for is given by the two
  readings of \<open>process.stdout\<close>. Its variables \<open>width\<close> and \<open>height\<close> are \<open>w\<close> and \<open>h\<close>
  here, as in the loops of \<open>renderFrame\<close> below: the names are those of the record fields.
\<close>

definition calculateAspectRatioDimensions ::
    "int option \<Rightarrow> int option \<Rightarrow> int \<Rightarrow> int \<Rightarrow> dimensions" where
  "calculateAspectRatioDimensions columns rows videoWidth videoHeight =
     (let term = getTerminalSize columns rows;
          maxHeight = height term - 2;
          maxWidth = width term;
          charAspectRatio = 1 / 2;
          videoAspectRatio = js_div (of_int videoWidth) (of_int videoHeight);
          w = maxWidth;
          h = js_floor (js_div (js_mul (of_int w) charAspectRatio) videoAspectRatio)
      in if h > maxHeight
         then \<lparr>width = js_floor (js_div (js_mul (of_int maxHeight) videoAspectRatio) charAspectRatio),
               height = maxHeight\<rparr>
         else \<lparr>width = w, height = h\<rparr>)"

section \<open>Frame Renderer\<close>

type_synonym byte = "8 word"

text \<open>The decimal digits of an integer, as a template literal prints it.\<close>

fun natToString :: "nat \<Rightarrow> string" where
  "natToString n =
     (if n < 10 then [char_of (48 + n)]
      else natToString (n div 10) @ [char_of (48 + n mod 10)])"

declare natToString.simps [simp del]

definition intToString :: "int \<Rightarrow> string" where
  "intToString i = (if i < 0 then CHR ''-'' # natToString (nat (- i)) else natToString (nat i))"

text \<open>Reading a byte of a \<open>Buffer\<close>: \<open>undefined\<close> (\<open>None\<close>) outside its range.\<close>

definition byteAt :: "byte list \<Rightarrow> int \<Rightarrow> int option" where
  "byteAt buf i = (if 0 \<le> i \<and> i < int (length buf) then Some (uint (buf ! nat i)) else None)"

text \<open>
  The text one iteration of the inner loop appends. When one of the three reads is
  \<open>undefined\<close> the brightness and the colour code are \<open>NaN\<close> and the character is
  \<open>undefined\<close>, which the template literal prints as such.
\<close>

definition pixelText :: "byte list \<Rightarrow> int \<Rightarrow> string" where
  "pixelText frameBuffer index =
     (case (byteAt frameBuffer index, byteAt frameBuffer (index + 1), byteAt frameBuffer (index + 2)) of
        (Some r, Some g, Some b) \<Rightarrow>
          (let char = glyph r g b;
               colorCode = rgbToAnsi256 r g b
           in CHR 0x1B # ''[38;5;'' @ intToString colorCode @ ''m'' @
              (case char of Some c \<Rightarrow> [c] | None \<Rightarrow> ''undefined''))
      | _ \<Rightarrow> CHR 0x1B # ''[38;5;NaNmundefined'')"

text \<open>The two \<open>for\<close> loops of \<open>renderFrame\<close>, each with its accumulated \<open>output\<close>.\<close>

function row_loop :: "byte list \<Rightarrow> int \<Rightarrow> int \<Rightarrow> int \<Rightarrow> string \<Rightarrow> string" where
  "row_loop frameBuffer w y x output =
     (if x < w
      then row_loop frameBuffer w y (x + 1) (output @ pixelText frameBuffer ((y * w + x) * 3))
      else output)"
  by pat_completeness auto
termination
  by (relation "measure (\<lambda>(frameBuffer, w, y, x, output). nat (w - x))") auto

function frame_loop :: "byte list \<Rightarrow> int \<Rightarrow> int \<Rightarrow> int \<Rightarrow> string \<Rightarrow> string" where
  "frame_loop frameBuffer w h y output =
     (if y < h
      then frame_loop frameBuffer w h (y + 1)
             (row_loop frameBuffer w y 0 output @ RESET @ [CHR 0x0A])
      else output)"
  by pat_completeness auto
termination
  by (relation "measure (\<lambda>(frameBuffer, w, h, y, output). nat (h - y))") auto

declare row_loop.simps [simp del] frame_loop.simps [simp del]

text \<open>
  What the program sends to its standard output, one entry per call:
  \<open>process.stdout.write(s)\<close>, \<open>console.log(s)\<close> and \<open>console.clear()\<close>.
\<close>

datatype stdout_call = Write string | Log string | Clear

text \<open>
  The state the playback closure of \<open>playVideo\<close> works on: its variables \<open>buffer\<close>,
  \<open>frameQueue\<close> and \<open>isPlaying\<close>, the calls made on the standard output so far, and the
  delays of the pending \<open>setTimeout(playNextFrame, delay)\<close> calls.
\<close>

record player =
  buffer :: "byte list"
  frameQueue :: "byte list list"
  isPlaying :: bool
  stdout :: "stdout_call list"
  timeouts :: "js_quotient list"

definition stdout_write :: "string \<Rightarrow> 'a player_scheme \<Rightarrow> 'a player_scheme" where
  "stdout_write text s = s\<lparr>stdout := stdout s @ [Write text]\<rparr>"

definition renderFrame :: "byte list \<Rightarrow> int \<Rightarrow> int \<Rightarrow> 'a player_scheme \<Rightarrow> 'a player_scheme" where
  "renderFrame frameBuffer w h s =
     (let s1 = stdout_write (CHR 0x1B # ''[H'') s;
          output = frame_loop frameBuffer w h 0 []
      in stdout_write output s1)"

section \<open>Frame Ingestor and Playback Scheduler\<close>

definition frameSize :: "dimensions \<Rightarrow> int" where
  "frameSize d = width d * height d * 3"

text \<open>\<open>const frameInterval = 1000 / videoInfo.fps\<close>, the delay passed to \<open>setTimeout\<close>.\<close>

definition frameInterval :: "number \<Rightarrow> js_quotient" where
  "frameInterval fps = js_divide 1000 fps"

text \<open>
  \<open>Buffer.prototype.slice(start, stop)\<close>: a negative offset counts from the end, and both
  offsets are clamped to the buffer.
\<close>

definition buffer_slice :: "'b list \<Rightarrow> int \<Rightarrow> int \<Rightarrow> 'b list" where
  "buffer_slice buf start stop =
     (let len = int (length buf);
          clamp = (\<lambda>i. if i < 0 then max (len + i) 0 else min i len);
          s = clamp start;
          e = clamp stop
      in take (nat (e - s)) (drop (nat s) buf))"

definition playNextFrame :: "dimensions \<Rightarrow> number \<Rightarrow> 'a player_scheme \<Rightarrow> 'a player_scheme" where
  "playNextFrame d fps s =
     (case frameQueue s of
        frameBuffer # rest \<Rightarrow>
          (let s1 = s\<lparr>frameQueue := rest\<rparr>;
               s2 = renderFrame frameBuffer (width d) (height d) s1
           in s2\<lparr>timeouts := timeouts s2 @ [frameInterval fps]\<rparr>)
      | [] \<Rightarrow> s\<lparr>isPlaying := False\<rparr>)"

text \<open>One iteration of the \<open>while\<close> loop of the \<open>data\<close> handler.\<close>

definition slice_frame :: "dimensions \<Rightarrow> number \<Rightarrow> 'a player_scheme \<Rightarrow> 'a player_scheme" where
  "slice_frame d fps s =
     (let frameBuffer = buffer_slice (buffer s) 0 (frameSize d);
          s1 = s\<lparr>buffer := buffer_slice (buffer s) (frameSize d) (int (length (buffer s)))\<rparr>;
          s2 = s1\<lparr>frameQueue := frameQueue s1 @ [frameBuffer]\<rparr>
      in if \<not> isPlaying s2 \<and> length (frameQueue s2) > 0
         then playNextFrame d fps (s2\<lparr>isPlaying := True\<rparr>)
         else s2)"

text \<open>
  The loop itself. It has no bound of its own: with a frame size of zero the condition
  never fails. \<open>None\<close> stands for a handler that does not return.
\<close>

partial_function (option) slice_loop ::
    "dimensions \<Rightarrow> number \<Rightarrow> 'a player_scheme \<Rightarrow> 'a player_scheme option" where
  "slice_loop d fps s =
     (if int (length (buffer s)) \<ge> frameSize d
      then slice_loop d fps (slice_frame d fps s)
      else Some s)"

definition on_data :: "dimensions \<Rightarrow> number \<Rightarrow> byte list \<Rightarrow> 'a player_scheme \<Rightarrow> 'a player_scheme option" where
  "on_data d fps chunk s = slice_loop d fps (s\<lparr>buffer := buffer s @ chunk\<rparr>)"

text \<open>
  The two events that drive the closure: a chunk from the decoder, and the firing of the
  oldest pending timeout, which calls \<open>playNextFrame\<close>. No timeout fires when none is
  pending.
\<close>

datatype event = Data "byte list" | Timer

fun step :: "dimensions \<Rightarrow> number \<Rightarrow> event \<Rightarrow> 'a player_scheme \<Rightarrow> 'a player_scheme option" where
  "step d fps (Data chunk) s = on_data d fps chunk s"
| "step d fps Timer s =
     (case timeouts s of
        [] \<Rightarrow> Some s
      | t # ts \<Rightarrow> Some (playNextFrame d fps (s\<lparr>timeouts := ts\<rparr>)))"

fun run :: "dimensions \<Rightarrow> number \<Rightarrow> event list \<Rightarrow> 'a player_scheme \<Rightarrow> 'a player_scheme option" where
  "run d fps [] s = Some s"
| "run d fps (e # es) s = (case step d fps e s of None \<Rightarrow> None | Some s' \<Rightarrow> run d fps es s')"

text \<open>The closure as \<open>playVideo\<close> creates it, after whatever was printed before.\<close>

definition start :: "stdout_call list \<Rightarrow> player" where
  "start out = \<lparr>buffer = [], frameQueue = [], isPlaying = False, stdout = out, timeouts = []\<rparr>"

section \<open>The program\<close>

text \<open>
  The top level of \<open>main.js\<close> and \<open>playVideo\<close>. What the environment decides is given
  beforehand: the command line, whether the input file exists, how the promise of
  \<open>getVideoInfo\<close> settles, and the size of the terminal. The decoder, the timer and the
  user then drive the program through events.
\<close>




















section \<open>Notions used to state the properties\<close>

text \<open>
  The frames contained in a byte stream, cut at multiples of the frame size, and the bytes
  left over after the last complete frame.
\<close>

function frames_of :: "nat \<Rightarrow> 'b list \<Rightarrow> 'b list list" where
  "frames_of n bs = (if 0 < n \<and> n \<le> length bs then take n bs # frames_of n (drop n bs) else [])"
  by pat_completeness auto
termination
  by (relation "measure (\<lambda>(n, bs). length bs)") auto

function residual :: "nat \<Rightarrow> 'b list \<Rightarrow> 'b list" where
  "residual n bs = (if 0 < n \<and> n \<le> length bs then residual n (drop n bs) else bs)"
  by pat_completeness auto
termination
  by (relation "measure (\<lambda>(n, bs). length bs)") auto

declare frames_of.simps [simp del] residual.simps [simp del]

text \<open>The two calls \<open>renderFrame\<close> makes on the standard output for a frame.\<close>

definition frameWrites :: "dimensions \<Rightarrow> byte list \<Rightarrow> stdout_call list" where
  "frameWrites d f = [Write (CHR 0x1B # ''[H''), Write (frame_loop f (width d) (height d) 0 [])]"

text \<open>
  \<open>tracks d out F s\<close>: of the frames \<open>F\<close> enqueued so far, in this order, the first \<open>k\<close>
  have been taken from the queue and rendered after the output \<open>out\<close>, and the others are
  the queue.
\<close>

definition tracks :: "dimensions \<Rightarrow> stdout_call list \<Rightarrow> byte list list \<Rightarrow> 'a player_scheme \<Rightarrow> bool" where
  "tracks d out F s \<longleftrightarrow>
     (\<exists>k\<le>length F. frameQueue s = drop k F \<and> stdout s = out @ concat (map (frameWrites d) (take k F)))"

text \<open>The bytes a sequence of events delivers.\<close>

fun bytes_of :: "event list \<Rightarrow> byte list" where
  "bytes_of [] = []"
| "bytes_of (Data chunk # es) = chunk @ bytes_of es"
| "bytes_of (Timer # es) = bytes_of es"

text \<open>The state after the events \<open>es\<close> is determined by the bytes they delivered.\<close>

definition ingested :: "dimensions \<Rightarrow> stdout_call list \<Rightarrow> byte list \<Rightarrow> 'a player_scheme \<Rightarrow> bool" where
  "ingested d out bs s \<longleftrightarrow>
     tracks d out (frames_of (nat (frameSize d)) bs) s \<and> buffer s = residual (nat (frameSize d)) bs"

text \<open>Exactly one timeout is pending while the flag is set, and none while it is not.\<close>

definition paced :: "number \<Rightarrow> 'a player_scheme \<Rightarrow> bool" where
  "paced fps s \<longleftrightarrow>
     timeouts s = (if isPlaying s then [frameInterval fps] else []) \<and>
     (\<not> isPlaying s \<longrightarrow> frameQueue s = [])"

text \<open>
  The pixel at column \<open>x\<close> of row \<open>y\<close> of a row-major RGB raster, the text of one pixel
  (the colour-set escape sequence, then the glyph), and the text of a whole frame.
\<close>

definition pixel :: "byte list \<Rightarrow> int \<Rightarrow> int \<Rightarrow> int \<Rightarrow> int \<times> int \<times> int" where
  "pixel frameBuffer w y x =
     (uint (frameBuffer ! nat ((y * w + x) * 3)),
      uint (frameBuffer ! nat ((y * w + x) * 3 + 1)),
      uint (frameBuffer ! nat ((y * w + x) * 3 + 2)))"

definition cell :: "int \<times> int \<times> int \<Rightarrow> string" where
  "cell p = (case p of (r, g, b) \<Rightarrow>
     CHR 0x1B # ''[38;5;'' @ intToString (rgbToAnsi256 r g b) @ ''m'' @
     [ASCII_CHARS ! nat (charIndex (brightness r g b))])"

definition frameText :: "byte list \<Rightarrow> int \<Rightarrow> int \<Rightarrow> string" where
  "frameText frameBuffer w h =
     concat (map (\<lambda>y. concat (map (\<lambda>x. cell (pixel frameBuffer w y x)) [0..w - 1])
                        @ RESET @ [CHR 0x0A])
                 [0..h - 1])"







section \<open>Properties of the rounding\<close>

lemma expo_up_bounds: "1 \<le> x \<Longrightarrow> 0 \<le> expo_up x \<and> 2 powi (expo_up x) \<le> x \<and> x < 2 powi (expo_up x + 1)"
proof (induction x rule: expo_up.induct)
  case (1 x)
  show ?case
  proof (cases "2 \<le> x")
    case True
    then have "1 \<le> x / 2" by simp
    from "1.IH" [OF True this] have ih: "0 \<le> expo_up (x / 2)"
      "2 powi (expo_up (x / 2)) \<le> x / 2" "x / 2 < 2 powi (expo_up (x / 2) + 1)"
      by simp_all
    have e: "expo_up x = expo_up (x / 2) + 1" using True by (subst expo_up.simps) simp
    show ?thesis using ih unfolding e
      by (simp add: power_int_add)
  next
    case False
    then have "expo_up x = 0" by (subst expo_up.simps) simp
    then show ?thesis using False "1.prems" by simp
  qed
qed

lemma expo_down_bounds: "0 < x \<Longrightarrow> x < 1 \<Longrightarrow> 2 powi (expo_down x) \<le> x \<and> x < 2 powi (expo_down x + 1)"
proof (induction x rule: expo_down.induct)
  case (1 x)
  have e: "expo_down x = expo_down (2 * x) - 1" using "1.prems" by (subst expo_down.simps) simp
  show ?case
  proof (cases "2 * x < 1")
    case True
    from "1.IH" "1.prems" True have ih:
      "2 powi (expo_down (2 * x)) \<le> 2 * x" "2 * x < 2 powi (expo_down (2 * x) + 1)"
      by simp_all
    show ?thesis using ih unfolding e
      by (simp add: power_int_add power_int_diff)
  next
    case False
    then have "expo_down (2 * x) = 0" by (subst expo_down.simps) simp
    then show ?thesis using False "1.prems" unfolding e by simp
  qed
qed

lemma expo_bounds: "0 < x \<Longrightarrow> 2 powi (expo x) \<le> x \<and> x < 2 powi (expo x + 1)"
  using expo_up_bounds [of x] expo_down_bounds [of x] by (cases "x < 1") (simp_all add: expo_def)

lemma powi2_mono: "a \<le> b \<Longrightarrow> (2::rat) powi a \<le> 2 powi b"
  by (rule power_int_increasing) simp_all

lemma expo_mono: "0 < x \<Longrightarrow> x \<le> y \<Longrightarrow> expo x \<le> expo y"
proof (rule ccontr)
  assume a: "0 < x" "x \<le> y" and n: "\<not> expo x \<le> expo y"
  then have "expo y + 1 \<le> expo x" by simp
  then have "(2::rat) powi (expo y + 1) \<le> 2 powi (expo x)" by (rule powi2_mono)
  moreover have "y < 2 powi (expo y + 1)" using expo_bounds [of y] a by simp
  moreover have "2 powi (expo x) \<le> x" using expo_bounds [of x] a by simp
  ultimately show False using a by simp
qed

lemma expo_unique: "2 powi e \<le> x \<Longrightarrow> x < 2 powi (e + 1) \<Longrightarrow> expo x = e"
proof -
  assume a: "2 powi e \<le> x" "x < 2 powi (e + 1)"
  have pos: "0 < x" using a(1) by (rule less_le_trans [rotated]) simp
  have b: "2 powi (expo x) \<le> x" "x < 2 powi (expo x + 1)" using expo_bounds [OF pos] by simp_all
  have "\<not> e + 1 \<le> expo x"
  proof
    assume "e + 1 \<le> expo x"
    then have "(2::rat) powi (e + 1) \<le> 2 powi (expo x)" by (rule powi2_mono)
    then show False using a b by simp
  qed
  moreover have "\<not> expo x + 1 \<le> e"
  proof
    assume "expo x + 1 \<le> e"
    then have "(2::rat) powi (expo x + 1) \<le> 2 powi e" by (rule powi2_mono)
    then show False using a b by simp
  qed
  ultimately show ?thesis by simp
qed

lemma rne_cases: "rne q = \<lfloor>q\<rfloor> \<or> rne q = \<lfloor>q\<rfloor> + 1"
  by (simp add: rne_def Let_def)

lemma rne_of_int [simp]: "rne (of_int n) = n"
  by (simp add: rne_def)

lemma rne_ge: "of_int n \<le> q \<Longrightarrow> n \<le> rne q"
proof -
  assume "of_int n \<le> q"
  then have "n \<le> \<lfloor>q\<rfloor>" by (simp add: le_floor_iff)
  then show ?thesis using rne_cases [of q] by auto
qed

lemma rne_le: "q \<le> of_int n \<Longrightarrow> rne q \<le> n"
proof (cases "q = of_int n")
  case True then show ?thesis by simp
next
  case False
  assume "q \<le> of_int n"
  with False have "q < of_int n" by simp
  then have "\<lfloor>q\<rfloor> < n" by (simp add: floor_less_iff)
  then show ?thesis using rne_cases [of q] by auto
qed

lemma rne_mono: "p \<le> q \<Longrightarrow> rne p \<le> rne q"
proof -
  assume pq: "p \<le> q"
  then have f: "\<lfloor>p\<rfloor> \<le> \<lfloor>q\<rfloor>" by (rule floor_mono)
  show ?thesis
  proof (cases "\<lfloor>p\<rfloor> = \<lfloor>q\<rfloor>")
    case True
    then show ?thesis using pq by (auto simp: rne_def Let_def)
  next
    case False
    with f have "\<lfloor>p\<rfloor> + 1 \<le> \<lfloor>q\<rfloor>" by simp
    then show ?thesis using rne_cases [of p] rne_cases [of q] by auto
  qed
qed

lemma rne_minus: "rne (- q) = - rne q"
proof (cases "q = of_int \<lfloor>q\<rfloor>")
  case True
  then have "rne (- of_int \<lfloor>q\<rfloor>) = - rne (of_int \<lfloor>q\<rfloor>)"
    unfolding of_int_minus [symmetric] rne_of_int by simp
  then show ?thesis using True by simp
next
  case False
  then have ne: "of_int \<lfloor>q\<rfloor> \<noteq> q" by (rule not_sym)
  have nz: "q \<notin> \<int>"
  proof
    assume "q \<in> \<int>"
    then obtain n where "q = of_int n" by (rule Ints_cases)
    then have "of_int \<lfloor>q\<rfloor> = q" by simp
    with ne show False ..
  qed
  have "\<lceil>q\<rceil> = \<lfloor>q\<rfloor> + 1" using False by (subst ceiling_altdef) (simp only: if_False)
  then have fm: "\<lfloor>- q\<rfloor> = - \<lfloor>q\<rfloor> - 1" by (simp add: floor_minus)
  have lt: "of_int \<lfloor>q\<rfloor> < q" using ne of_int_floor_le [of q] by (rule order.not_eq_order_implies_strict)
  show ?thesis unfolding rne_def Let_def fm using lt
    by (auto simp: algebra_simps)
qed


lemma quantum_pos: "0 < quantum x"
  by (simp add: quantum_def)

lemma fl_minus: "fl (- x) = - fl x"
  by (simp add: fl_def Let_def quantum_def rne_minus)

lemma fl_0 [simp]: "fl 0 = 0"
  by (simp add: fl_def Let_def rne_def)

lemma fl_nonneg: "0 \<le> x \<Longrightarrow> 0 \<le> fl x"
proof -
  assume "0 \<le> x"
  then have "of_int 0 \<le> x / quantum x" using quantum_pos [of x] by simp
  then have "0 \<le> rne (x / quantum x)" by (rule rne_ge)
  then show ?thesis using quantum_pos [of x] by (simp add: fl_def Let_def)
qed

lemma fl_mono_pos:
  assumes "0 < x" "x \<le> y"
  shows "fl x \<le> fl y"
proof -
  have y: "0 < y" using assms by simp
  define ex where "ex = max (expo x) (-1022) - 52"
  define ey where "ey = max (expo y) (-1022) - 52"
  have qx: "quantum x = 2 powi ex" using assms by (simp add: quantum_def ex_def)
  have qy: "quantum y = 2 powi ey" using y by (simp add: quantum_def ey_def)
  have flx: "fl x = of_int (rne (x / 2 powi ex)) * 2 powi ex" by (simp add: fl_def Let_def qx)
  have fly: "fl y = of_int (rne (y / 2 powi ey)) * 2 powi ey" by (simp add: fl_def Let_def qy)
  have le: "ex \<le> ey" using expo_mono [OF assms] by (simp add: ex_def ey_def)
  show ?thesis
  proof (cases "ex = ey")
    case True
    have "x / 2 powi ey \<le> y / 2 powi ey" using assms by (simp add: divide_right_mono)
    then have "rne (x / 2 powi ey) \<le> rne (y / 2 powi ey)" by (rule rne_mono)
    then show ?thesis unfolding flx fly True by (simp add: mult_right_mono)
  next
    case False
    with le have lt: "ex < ey" by simp
    then have ey_eq: "ey = expo y - 52" and gt: "expo x < expo y"
      by (auto simp: ex_def ey_def)
    define B :: rat where "B = 2 powi (expo y)"
    have xB: "x \<le> B"
    proof -
      have "x < 2 powi (expo x + 1)" using expo_bounds [of x] assms by simp
      also have "\<dots> \<le> B" unfolding B_def using gt by (intro powi2_mono) simp
      finally show ?thesis by simp
    qed
    have By: "B \<le> y" unfolding B_def using expo_bounds [of y] y by simp
    have d1: "0 \<le> expo y - ex" using lt ey_eq by simp
    have B1: "B / 2 powi ex = of_int (2 ^ nat (expo y - ex))"
      unfolding B_def using d1 by (simp add: power_int_diff [symmetric] power_int_nonneg_exp)
    have B2: "B / 2 powi ey = of_int (2 ^ 52)"
      unfolding B_def ey_eq by (simp add: power_int_diff [symmetric])
    have "x / 2 powi ex \<le> B / 2 powi ex" using xB by (simp add: divide_right_mono)
    then have "rne (x / 2 powi ex) \<le> 2 ^ nat (expo y - ex)" unfolding B1 by (rule rne_le)
    then have "(of_int (rne (x / 2 powi ex)) :: rat) \<le> of_int (2 ^ nat (expo y - ex))"
      by (simp only: of_int_le_iff)
    then have "fl x \<le> B / 2 powi ex * 2 powi ex" unfolding flx B1
      by (intro mult_right_mono) simp_all
    then have 1: "fl x \<le> B" by simp
    have "B / 2 powi ey \<le> y / 2 powi ey" using By by (simp add: divide_right_mono)
    then have "2 ^ 52 \<le> rne (y / 2 powi ey)" unfolding B2 by (rule rne_ge)
    then have "(of_int (2 ^ 52) :: rat) \<le> of_int (rne (y / 2 powi ey))"
      by (simp only: of_int_le_iff)
    then have "B / 2 powi ey * 2 powi ey \<le> fl y" unfolding fly B2
      by (intro mult_right_mono) simp_all
    then have 2: "B \<le> fl y" by simp
    from 1 2 show ?thesis by simp
  qed
qed

lemma fl_mono: "x \<le> y \<Longrightarrow> fl x \<le> fl y"
proof -
  assume xy: "x \<le> y"
  consider "0 < x" | "x \<le> 0" "0 \<le> y" | "y < 0" by linarith
  then show ?thesis
  proof cases
    case 1
    then show ?thesis using xy by (rule fl_mono_pos)
  next
    case 2
    have "0 \<le> fl (- x)" using 2 by (intro fl_nonneg) simp
    then have "fl x \<le> 0" by (simp add: fl_minus)
    moreover have "0 \<le> fl y" using 2 by (intro fl_nonneg)
    ultimately show ?thesis by simp
  next
    case 3
    have "fl (- y) \<le> fl (- x)" using 3 xy by (intro fl_mono_pos) simp_all
    then show ?thesis by (simp add: fl_minus)
  qed
qed

lemma fl_exact_pos:
  assumes n: "0 < n" "n < 2 ^ 53" and k: "- 1074 \<le> k"
  shows "fl (of_int n * 2 powi k) = of_int n * 2 powi k"
proof -
  define x :: rat where "x = of_int n * 2 powi k"
  have xpos: "0 < x" using n by (simp add: x_def)
  have "x < 2 ^ 53 * 2 powi k"
  proof -
    have "(of_int n :: rat) < of_int (2 ^ 53)" using n by (simp only: of_int_less_iff)
    then show ?thesis unfolding x_def by (intro mult_strict_right_mono) simp_all
  qed
  then have xlt: "x < 2 powi (53 + k)" by (simp add: power_int_add)
  have "expo x < 53 + k"
  proof (rule ccontr)
    assume "\<not> expo x < 53 + k"
    then have "(2::rat) powi (53 + k) \<le> 2 powi (expo x)" by (intro powi2_mono) simp
    then show False using expo_bounds [OF xpos] xlt by simp
  qed
  then have d: "0 \<le> k - (max (expo x) (-1022) - 52)" using k by simp
  define e where "e = max (expo x) (-1022) - 52"
  have q: "quantum x = 2 powi e" using xpos by (simp add: quantum_def e_def)
  have "x / 2 powi e = of_int n * 2 powi (k - e)" by (simp add: x_def power_int_diff)
  also have "\<dots> = of_int (n * 2 ^ nat (k - e))" using d by (simp add: e_def power_int_nonneg_exp)
  finally have i: "x / 2 powi e = of_int (n * 2 ^ nat (k - e))" .
  have "fl x = of_int (rne (x / 2 powi e)) * 2 powi e" by (simp add: fl_def Let_def q)
  also have "\<dots> = x / 2 powi e * 2 powi e" unfolding i rne_of_int ..
  also have "\<dots> = x" by simp
  finally show ?thesis by (simp add: x_def)
qed

lemma fl_exact:
  assumes "\<bar>n\<bar> < 2 ^ 53" "- 1074 \<le> k"
  shows "fl (of_int n * 2 powi k) = of_int n * 2 powi k"
proof -
  consider "0 < n" | "n = 0" | "n < 0" by linarith
  then show ?thesis
  proof cases
    case 1 then show ?thesis using assms by (intro fl_exact_pos) simp_all
  next
    case 2 then show ?thesis by simp
  next
    case 3
    then have "fl (of_int (- n) * 2 powi k) = of_int (- n) * 2 powi k"
      using assms by (intro fl_exact_pos) simp_all
    then have "fl (- (of_int n * 2 powi k)) = - (of_int n * 2 powi k)" by simp
    then show ?thesis unfolding fl_minus by simp
  qed
qed

lemma fl_of_int: "\<bar>n\<bar> < 2 ^ 53 \<Longrightarrow> fl (of_int n) = of_int n"
  using fl_exact [of n 0] by simp

lemma fl_half_int: "\<bar>n\<bar> < 2 ^ 53 \<Longrightarrow> fl (of_int n / 2) = of_int n / 2"
  using fl_exact [of n "-1"] by (simp add: power_int_minus field_simps)

lemma rne_eqI:
  assumes "\<bar>q - of_int n\<bar> < 1 / 2 \<or> (\<bar>q - of_int n\<bar> = 1 / 2 \<and> even n)"
  shows "rne q = n"
proof (cases "of_int n \<le> q")
  case True
  with assms have "q < of_int n + 1" by linarith
  with True have f: "\<lfloor>q\<rfloor> = n" by (intro floor_unique)
  show ?thesis using assms True unfolding rne_def Let_def f by auto
next
  case False
  with assms have "of_int (n - 1) \<le> q" "q < of_int (n - 1) + 1" by auto
  then have f: "\<lfloor>q\<rfloor> = n - 1" by (intro floor_unique)
  show ?thesis using assms False unfolding rne_def Let_def f by auto
qed

lemma quantum_eqI:
  assumes "2 powi e \<le> \<bar>x\<bar>" "\<bar>x\<bar> < 2 powi (e + 1)" "- 1022 \<le> e"
  shows "quantum x = 2 powi (e - 52)"
proof -
  have "expo \<bar>x\<bar> = e" using assms(1,2) by (rule expo_unique)
  then show ?thesis using assms(3) by (simp add: quantum_def)
qed

lemma fl_eqI:
  assumes "2 powi e \<le> \<bar>x\<bar>" "\<bar>x\<bar> < 2 powi (e + 1)" "- 1022 \<le> e"
    and "\<bar>x / 2 powi (e - 52) - of_int n\<bar> < 1 / 2 \<or>
         (\<bar>x / 2 powi (e - 52) - of_int n\<bar> = 1 / 2 \<and> even n)"
  shows "fl x = of_int n * 2 powi (e - 52)"
proof -
  have q: "quantum x = 2 powi (e - 52)" using assms(1-3) by (rule quantum_eqI)
  have "rne (x / 2 powi (e - 52)) = n" using assms(4) by (rule rne_eqI)
  then show ?thesis by (simp add: fl_def Let_def q)
qed

lemma rne_error: "\<bar>of_int (rne q) - q\<bar> \<le> 1 / 2"
proof -
  define d where "d = q - of_int \<lfloor>q\<rfloor>"
  have d: "0 \<le> d" "d < 1" unfolding d_def by linarith+
  have q: "q = of_int \<lfloor>q\<rfloor> + d" by (simp add: d_def)
  consider "d < 1 / 2" | "1 / 2 < d" | "d = 1 / 2" by linarith
  then show ?thesis
  proof cases
    case 1
    then have "rne q = \<lfloor>q\<rfloor>" by (simp add: rne_def Let_def d_def)
    then have "of_int (rne q) - q = - d" by (simp add: d_def)
    then show ?thesis using d 1 by simp
  next
    case 2
    then have "rne q = \<lfloor>q\<rfloor> + 1" by (simp add: rne_def Let_def d_def)
    then have "of_int (rne q) - q = 1 - d" by (simp add: d_def)
    then show ?thesis using d 2 by simp
  next
    case 3
    have "of_int (rne q) - q = - d \<or> of_int (rne q) - q = 1 - d"
      using rne_cases [of q] by (auto simp: d_def)
    then show ?thesis using 3 by auto
  qed
qed

lemma fl_error_quantum: "\<bar>fl x - x\<bar> \<le> quantum x / 2"
proof -
  define u where "u = quantum x"
  have u: "0 < u" unfolding u_def by (rule quantum_pos)
  have "fl x - x = (of_int (rne (x / u)) - x / u) * u"
    using u by (simp add: fl_def Let_def u_def [symmetric] algebra_simps)
  then have "\<bar>fl x - x\<bar> = \<bar>of_int (rne (x / u)) - x / u\<bar> * u"
    using u by (simp add: abs_mult)
  also have "\<dots> \<le> 1 / 2 * u" using u rne_error [of "x / u"] by (intro mult_right_mono) simp_all
  finally show ?thesis by (simp add: u_def)
qed

lemma fl_error:
  assumes "\<bar>x\<bar> < 2 powi (e + 1)" "- 1022 \<le> e"
  shows "\<bar>fl x - x\<bar> \<le> 2 powi (e - 53)"
proof (cases "x = 0")
  case True
  then show ?thesis by simp
next
  case False
  then have pos: "0 < \<bar>x\<bar>" by simp
  have "expo \<bar>x\<bar> < e + 1"
  proof (rule ccontr)
    assume "\<not> expo \<bar>x\<bar> < e + 1"
    then have "(2::rat) powi (e + 1) \<le> 2 powi (expo \<bar>x\<bar>)" by (intro powi2_mono) simp
    then show False using expo_bounds [OF pos] assms(1) by simp
  qed
  then have "max (expo \<bar>x\<bar>) (- 1022) - 52 \<le> e - 52" using assms(2) by simp
  then have "quantum x \<le> 2 powi (e - 52)" unfolding quantum_def by (rule powi2_mono)
  then have "quantum x / 2 \<le> 2 powi (e - 52) / 2" by simp
  also have "\<dots> = 2 powi (e - 53)"
    using power_int_diff [of "2::rat" "e - 52" 1] by simp
  finally show ?thesis using fl_error_quantum [of x] by simp
qed

lemma floor_near_odd_quotient:
  fixes m D :: int and b :: rat
  assumes D: "0 < D" "even D" and m: "odd m"
    and b: "\<bar>b - of_int m / of_int D\<bar> < 1 / of_int D"
  shows "\<lfloor>b\<rfloor> = m div D"
proof -
  define q where "q = m div D"
  define p where "p = m mod D"
  have p0: "0 \<le> p" "p < D" using D by (simp_all add: p_def)
  have "p \<noteq> 0"
  proof
    assume "p = 0"
    then have "D dvd m" by (simp add: p_def dvd_eq_mod_eq_0)
    with D(2) have "even m" using dvd_trans by blast
    with m show False by simp
  qed
  with p0 have p: "1 \<le> p" "p + 1 \<le> D" by simp_all
  define y :: rat where "y = of_int m / of_int D"
  define r :: rat where "r = of_int p / of_int D"
  define u :: rat where "u = 1 / of_int D"
  have Dr: "(0::rat) < of_int D" using D(1) by simp
  have "m = D * q + p" by (simp add: q_def p_def)
  then have "(of_int m :: rat) = of_int D * of_int q + of_int p"
    by (metis of_int_add of_int_mult)
  then have y: "y = of_int q + r"
    using Dr by (simp add: y_def r_def field_simps)
  have "(of_int 1 :: rat) \<le> of_int p" using p(1) by (simp only: of_int_le_iff)
  then have r1: "u \<le> r" using Dr by (simp add: u_def r_def divide_right_mono)
  have "(of_int (p + 1) :: rat) \<le> of_int D" using p(2) by (simp only: of_int_le_iff)
  then have "(of_int p + 1) / of_int D \<le> (of_int D :: rat) / of_int D"
    using Dr by (intro divide_right_mono) simp_all
  then have r2: "r + u \<le> 1" using Dr by (simp add: u_def r_def add_divide_distrib)
  from b have b': "\<bar>b - y\<bar> < u" by (simp add: y_def u_def)
  then have "y - u < b" "b < y + u" by (simp_all add: abs_less_iff) 
  with y r1 r2 have "of_int q \<le> b" "b < of_int q + 1" by linarith+
  then show ?thesis unfolding q_def [symmetric] by (intro floor_unique)
qed

lemma floor_odd_quotient:
  fixes m D :: int
  assumes "0 < D" "even D" "odd m"
  shows "\<lfloor>(of_int m / of_int D :: rat)\<rfloor> = m div D"
  using floor_near_odd_quotient [OF assms, of "of_int m / of_int D"] assms(1) by simp



text \<open>The relative error of a rounding, for a normal number.\<close>

lemma expo_powi: "expo (2 powi k) = k"
  by (rule expo_unique) (simp_all add: power_int_add)

lemma fl_rel_error:
  assumes "2 powi (- 1022) \<le> \<bar>x\<bar>"
  shows "\<bar>fl x - x\<bar> \<le> \<bar>x\<bar> / 2 ^ 53"
proof -
  have pos: "0 < \<bar>x\<bar>" using assms by (rule less_le_trans [rotated]) simp
  define e where "e = expo \<bar>x\<bar>"
  have b: "2 powi e \<le> \<bar>x\<bar>" "\<bar>x\<bar> < 2 powi (e + 1)" using expo_bounds [OF pos] by (simp_all add: e_def)
  have "(0::rat) < 2 powi (- 1022)" by (rule zero_less_power_int) simp
  then have "expo (2 powi (- 1022)) \<le> expo \<bar>x\<bar>" using assms by (rule expo_mono)
  then have e: "- 1022 \<le> e" unfolding e_def expo_powi .
  from fl_error [OF b(2) e] have "\<bar>fl x - x\<bar> \<le> 2 powi (e - 53)" .
  also have "\<dots> = 2 powi e / 2 ^ 53" using power_int_diff [of "2::rat" e 53] by simp
  also have "\<dots> \<le> \<bar>x\<bar> / 2 ^ 53" using b(1) by (simp add: divide_right_mono)
  finally show ?thesis .
qed

section \<open>Properties of the Pixel Mapper\<close>

lemma scaled_round:
  fixes n N K :: int
  assumes n: "0 \<le> n" "n \<le> N" and N: "N \<le> 255" "odd N" and K: "0 < K" "K \<le> 31"
  shows "js_round (js_mul (js_div (of_int n) (of_int N)) (of_int K))
       = round (of_int n / of_int N * of_int K :: rat)"
proof -
  have Npos: "0 < N" using N(2) n by (cases "N = 0") auto
  define x :: rat where "x = of_int n / of_int N"
  define a where "a = fl x"
  define b where "b = fl (a * of_int K)"
  have Nr: "(0::rat) < of_int N" using Npos by simp
  have Nr255: "(of_int N :: rat) \<le> 255" using N(1) by (metis of_int_le_iff of_int_numeral)
  have Kr: "(0::rat) < of_int K" "(of_int K :: rat) \<le> 31"
    using K by (simp, metis of_int_le_iff of_int_numeral)
  have "(of_int n :: rat) \<le> of_int N" using n(2) by (simp only: of_int_le_iff)
  then have x1: "x \<le> 1" using Nr by (simp add: x_def)
  have x0: "0 \<le> x" using n(1) Nr by (simp add: x_def)
  define e1 :: rat where "e1 = 1 / 2 ^ 53"
  define e2 :: rat where "e2 = 1 / 2 ^ 49"
  have "\<bar>x\<bar> < 2 powi (0 + 1)" using x0 x1 by simp
  then have "\<bar>fl x - x\<bar> \<le> 2 powi (0 - 53)" by (rule fl_error) simp
  then have ea: "\<bar>a - x\<bar> \<le> e1" by (simp add: a_def e1_def power_int_minus)
  have e1: "0 \<le> e1" "e1 \<le> 1 / 32" by (simp_all add: e1_def)
  from ea x0 x1 e1 have a1: "\<bar>a\<bar> \<le> 1 + 1 / 32" by linarith
  have aK: "\<bar>a * of_int K\<bar> = \<bar>a\<bar> * of_int K" using Kr by (simp add: abs_mult)
  have "\<bar>a\<bar> * of_int K \<le> (1 + 1 / 32) * 31"
    using a1 Kr by (intro mult_mono) simp_all
  then have "\<bar>a * of_int K\<bar> < 2 powi (4 + 1)" unfolding aK by simp
  then have "\<bar>fl (a * of_int K) - a * of_int K\<bar> \<le> 2 powi (4 - 53)" by (rule fl_error) simp
  then have eb: "\<bar>b - a * of_int K\<bar> \<le> e2" by (simp add: b_def e2_def power_int_minus)
  have "\<bar>a * of_int K - x * of_int K\<bar> = \<bar>a - x\<bar> * of_int K"
    using Kr by (simp add: abs_mult left_diff_distrib [symmetric])
  also have "\<dots> \<le> e1 * 31" using ea Kr e1 by (intro mult_mono) simp_all
  finally have ec: "\<bar>a * of_int K - x * of_int K\<bar> \<le> e1 * 31" .
  have "\<bar>b - x * of_int K\<bar> \<le> \<bar>b - a * of_int K\<bar> + \<bar>a * of_int K - x * of_int K\<bar>" by simp
  with eb ec have "\<bar>b - x * of_int K\<bar> \<le> e2 + e1 * 31" by linarith
  also have "\<dots> < 1 / 510" by (simp add: e1_def e2_def)
  also have "1 / 510 \<le> 1 / (of_int (2 * N) :: rat)"
    using Nr Nr255 by (simp add: field_simps)
  finally have err: "\<bar>b - x * of_int K\<bar> < 1 / (of_int (2 * N) :: rat)" .
  define m where "m = 2 * n * K + N"
  have m: "odd m" using N(2) by (simp add: m_def)
  have D: "0 < 2 * N" "even (2 * N)" using Npos by simp_all
  have y: "(of_int m :: rat) / of_int (2 * N) = x * of_int K + 1 / 2"
    using Nr by (simp add: m_def x_def field_simps)
  have "\<bar>(b + 1 / 2) - of_int m / of_int (2 * N)\<bar> < 1 / (of_int (2 * N) :: rat)"
    unfolding y using err by simp
  from floor_near_odd_quotient [OF D m this] have 1: "\<lfloor>b + 1 / 2\<rfloor> = m div (2 * N)" .
  have 2: "\<lfloor>x * of_int K + 1 / 2\<rfloor> = m div (2 * N)"
    using floor_odd_quotient [OF D m] unfolding y .
  show ?thesis
    unfolding js_round_def js_mul_def js_div_def round_def
    using 1 2 by (simp add: b_def a_def x_def)
qed

lemma color_level:
  assumes "0 \<le> r" "r \<le> 255"
  shows "js_round (js_mul (js_div (of_int r) 255) 5) = round (of_int r / 255 * 5 :: rat)"
  using scaled_round [of r 255 5] assms by simp

lemma gray_level:
  assumes "8 \<le> r" "r \<le> 248"
  shows "js_round (js_mul (js_div (of_int (r - 8)) 247) 24) = round ((of_int r - 8) / 247 * 24 :: rat)"
  using scaled_round [of "r - 8" 247 24] assms by simp

lemma rgbToAnsi256_spec:
  assumes "0 \<le> r" "r \<le> 255" "0 \<le> g" "g \<le> 255" "0 \<le> b" "b \<le> 255"
  shows "rgbToAnsi256 r g b = ansi256_spec r g b"
proof (cases "r = g \<and> g = b")
  case True
  show ?thesis
  proof (cases "r < 8 \<or> 248 < r")
    case True
    with \<open>r = g \<and> g = b\<close> show ?thesis by (auto simp: rgbToAnsi256_def ansi256_spec_def)
  next
    case False
    then have "8 \<le> r" "r \<le> 248" by simp_all
    from gray_level [OF this] False True show ?thesis
      unfolding rgbToAnsi256_def ansi256_spec_def by (simp only: if_True if_False simp_thms) simp
  qed
next
  case False
  with color_level [OF assms(1,2)] color_level [OF assms(3,4)] color_level [OF assms(5,6)]
  show ?thesis unfolding rgbToAnsi256_def ansi256_spec_def by (simp only: if_False)
qed

lemma uint_byte: "0 \<le> uint (x :: byte) \<and> uint x \<le> 255"
  using uint_lt2p [of x] by simp

lemma ansi256_spec_values:
  "ansi256_spec 0 0 0 = 16" "ansi256_spec 255 255 255 = 231"
  "ansi256_spec 128 128 128 = 244" "ansi256_spec 255 0 0 = 196"
  by code_simp+

text \<open>
  Claim C3. For all byte components the colour index the code computes with doubles is
  the index of the specification's formula in exact arithmetic; black maps to 16, white
  to 231, mid grey into the grey ramp and pure red to 196.
\<close>

theorem color_quantization:
  fixes r g b :: byte
  shows "rgbToAnsi256 (uint r) (uint g) (uint b) = ansi256_spec (uint r) (uint g) (uint b) \<and>
         rgbToAnsi256 0 0 0 = 16 \<and>
         rgbToAnsi256 255 255 255 = 231 \<and>
         232 \<le> rgbToAnsi256 128 128 128 \<and> rgbToAnsi256 128 128 128 \<le> 255 \<and>
         rgbToAnsi256 255 0 0 = 196"
proof -
  have "rgbToAnsi256 (uint r) (uint g) (uint b) = ansi256_spec (uint r) (uint g) (uint b)"
    using uint_byte [of r] uint_byte [of g] uint_byte [of b] by (intro rgbToAnsi256_spec) simp_all
  moreover have "rgbToAnsi256 0 0 0 = 16" "rgbToAnsi256 255 255 255 = 231"
    "rgbToAnsi256 128 128 128 = 244" "rgbToAnsi256 255 0 0 = 196"
    by (simp_all add: rgbToAnsi256_spec ansi256_spec_values)
  ultimately show ?thesis by simp
qed

lemma fl_299: "fl (299 / 1000) = 5386305154335113 / 18014398509481984"
  using fl_eqI [where e = "- 2" and n = 5386305154335113 and x = "299 / 1000"]
  by (simp add: power_int_minus)

lemma fl_587: "fl (587 / 1000) = 2643612981266481 / 4503599627370496"
  using fl_eqI [where e = "- 1" and n = 5287225962532962 and x = "587 / 1000"]
  by (simp add: power_int_minus)

lemma fl_114: "fl (114 / 1000) = 8214565720323785 / 72057594037927936"
  using fl_eqI [where e = "- 4" and n = 8214565720323785 and x = "114 / 1000"]
  by (simp add: power_int_minus)

lemma white_r: "fl (255 * (5386305154335113 / 18014398509481984)) = 5365264899825991 / 70368744177664"
  using fl_eqI [where e = 6 and n = 5365264899825991 and x = "255 * (5386305154335113 / 18014398509481984)"]
  by (simp add: power_int_minus)

lemma white_g: "fl (255 * (2643612981266481 / 4503599627370496)) = 2633286368058409 / 17592186044416"
  using fl_eqI [where e = 7 and n = 5266572736116818 and x = "255 * (2643612981266481 / 4503599627370496)"]
  by (simp add: power_int_minus)

lemma white_b: "fl (255 * (8214565720323785 / 72057594037927936)) = 4091238786489385 / 140737488355328"
  using fl_eqI [where e = 4 and n = 8182477572978770 and x = "255 * (8214565720323785 / 72057594037927936)"]
  by (simp add: power_int_minus)

lemma white_rg: "fl (5365264899825991 / 70368744177664 + 2633286368058409 / 17592186044416) = 3974602593014907 / 17592186044416"
  using fl_eqI [where e = 7 and n = 7949205186029814 and x = "5365264899825991 / 70368744177664 + 2633286368058409 / 17592186044416"]
  by (simp add: power_int_minus)

lemma white_rgb: "fl (3974602593014907 / 17592186044416 + 4091238786489385 / 140737488355328) = 255"
  using fl_eqI [where e = 7 and n = 8972014882652160 and x = "3974602593014907 / 17592186044416 + 4091238786489385 / 140737488355328"]
  by (simp add: power_int_minus)


lemma fl_numeral_exact [simp]: "fl 1 = 1" "fl 9 = 9" "fl 255 = 255" "fl (1 / 2) = 1 / 2"
  using fl_of_int [of 1] fl_of_int [of 9] fl_of_int [of 255] fl_half_int [of 1] by simp_all

lemma brightness_white: "brightness 255 255 255 = 1"
proof -
  have "brightness 255 255 255 = fl (255 / 255)"
    unfolding brightness_def js_div_def js_add_def js_mul_def of_int_numeral
      fl_299 fl_587 fl_114 white_r white_g white_b white_rg white_rgb ..
  then show ?thesis by simp
qed

lemma brightness_black: "brightness 0 0 0 = 0"
  by (simp add: brightness_def js_div_def js_add_def js_mul_def)

lemma ramp_length: "length ASCII_CHARS = 10"
  by (simp add: ASCII_CHARS_def)

lemma brightness_mono:
  assumes "r \<le> r'" "g \<le> g'" "b \<le> b'"
  shows "brightness r g b \<le> brightness r' g' b'"
proof -
  have c: "0 \<le> fl (299 / 1000)" "0 \<le> fl (587 / 1000)" "0 \<le> fl (114 / 1000)"
    by (simp_all add: fl_nonneg)
  have "(of_int r :: rat) \<le> of_int r'" "(of_int g :: rat) \<le> of_int g'" "(of_int b :: rat) \<le> of_int b'"
    using assms by simp_all
  then have "js_mul (of_int r) (fl (299 / 1000)) \<le> js_mul (of_int r') (fl (299 / 1000))"
    "js_mul (of_int g) (fl (587 / 1000)) \<le> js_mul (of_int g') (fl (587 / 1000))"
    "js_mul (of_int b) (fl (114 / 1000)) \<le> js_mul (of_int b') (fl (114 / 1000))"
    unfolding js_mul_def using c by (auto intro!: fl_mono mult_right_mono)
  then show ?thesis
    unfolding brightness_def js_add_def js_div_def
    by (intro fl_mono divide_right_mono add_mono) simp_all
qed

lemma charIndex_mono: "x \<le> y \<Longrightarrow> charIndex x \<le> charIndex y"
  unfolding charIndex_def js_floor_def js_mul_def
  by (intro floor_mono fl_mono mult_right_mono) (simp_all add: ramp_length)

lemma charIndex_1: "charIndex 1 = 9"
  by (simp add: charIndex_def js_floor_def js_mul_def ramp_length)

lemma charIndex_0: "charIndex 0 = 0"
  by (simp add: charIndex_def js_floor_def js_mul_def ramp_length)

lemma charIndex_range:
  assumes "0 \<le> r" "r \<le> 255" "0 \<le> g" "g \<le> 255" "0 \<le> b" "b \<le> 255"
  shows "0 \<le> charIndex (brightness r g b) \<and> charIndex (brightness r g b) \<le> 9"
proof -
  have "brightness 0 0 0 \<le> brightness r g b" "brightness r g b \<le> brightness 255 255 255"
    using assms by (simp_all add: brightness_mono)
  then have "charIndex 0 \<le> charIndex (brightness r g b)" "charIndex (brightness r g b) \<le> charIndex 1"
    unfolding brightness_black brightness_white by (simp_all add: charIndex_mono)
  then show ?thesis by (simp add: charIndex_0 charIndex_1)
qed

lemma glyph_in_range:
  assumes "0 \<le> r" "r \<le> 255" "0 \<le> g" "g \<le> 255" "0 \<le> b" "b \<le> 255"
  shows "glyph r g b = Some (ASCII_CHARS ! nat (charIndex (brightness r g b)))"
  using charIndex_range [OF assms] by (simp add: glyph_def charAt_def ramp_length)





















section \<open>Properties of the Frame Ingestor\<close>

lemma buffer_slice_head: "0 \<le> n \<Longrightarrow> buffer_slice buf 0 n = take (nat n) buf"
  by (simp add: buffer_slice_def Let_def min_def)

lemma buffer_slice_tail: "0 \<le> n \<Longrightarrow> buffer_slice buf n (int (length buf)) = drop (nat n) buf"
  by (simp add: buffer_slice_def Let_def min_def)

lemma renderFrame_eq:
  "renderFrame f w h s = s\<lparr>stdout := stdout s @ [Write (CHR 0x1B # ''[H''), Write (frame_loop f w h 0 [])]\<rparr>"
  by (simp add: renderFrame_def stdout_write_def Let_def)

lemma playNextFrame_Nil: "frameQueue s = [] \<Longrightarrow> playNextFrame d fps s = s\<lparr>isPlaying := False\<rparr>"
  by (simp add: playNextFrame_def)

lemma playNextFrame_Cons:
  "frameQueue s = f # q \<Longrightarrow>
   playNextFrame d fps s =
     s\<lparr>frameQueue := q, stdout := stdout s @ frameWrites d f,
       timeouts := timeouts s @ [frameInterval fps]\<rparr>"
  by (simp add: playNextFrame_def renderFrame_eq frameWrites_def Let_def)

lemma playNextFrame_buffer [simp]: "buffer (playNextFrame d fps s) = buffer s"
  by (cases "frameQueue s") (simp_all add: playNextFrame_Nil playNextFrame_Cons)

lemma slice_frame_buffer:
  "0 \<le> frameSize d \<Longrightarrow> buffer (slice_frame d fps s) = drop (nat (frameSize d)) (buffer s)"
  by (simp add: slice_frame_def Let_def buffer_slice_tail)

lemma slice_loop_terminates:
  assumes "0 < frameSize d"
  shows "\<exists>s'. slice_loop d fps s = Some s'"
proof (induction "length (buffer s)" arbitrary: s rule: less_induct)
  case less
  show ?case
  proof (cases "frameSize d \<le> int (length (buffer s))")
    case True
    have "length (buffer (slice_frame d fps s)) < length (buffer s)"
      using assms True by (simp add: slice_frame_buffer)
    from less [OF this] obtain s' where "slice_loop d fps (slice_frame d fps s) = Some s'" by blast
    then show ?thesis using True by (subst slice_loop.simps) simp
  next
    case False
    then show ?thesis by (subst slice_loop.simps) simp
  qed
qed

lemma slice_loop_residual:
  assumes "slice_loop d fps s = Some s'"
  shows "int (length (buffer s')) < frameSize d"
  by (rule slice_loop.raw_induct [OF _ assms]) (auto split: if_splits)

lemma slice_loop_positive:
  assumes "slice_loop d fps s = Some s'"
  shows "0 < frameSize d"
  by (rule slice_loop.raw_induct [OF _ assms]) (auto split: if_splits)


lemma frames_of_stop: "\<not> (0 < n \<and> n \<le> length bs) \<Longrightarrow> frames_of n bs = []"
  by (subst frames_of.simps) auto

lemma residual_stop: "\<not> (0 < n \<and> n \<le> length bs) \<Longrightarrow> residual n bs = bs"
  by (subst residual.simps) auto

lemma frames_of_step:
  "0 < n \<Longrightarrow> n \<le> length bs \<Longrightarrow> frames_of n bs = take n bs # frames_of n (drop n bs)"
  by (subst frames_of.simps) simp

lemma residual_step:
  "0 < n \<Longrightarrow> n \<le> length bs \<Longrightarrow> residual n bs = residual n (drop n bs)"
  by (subst residual.simps) simp

lemma frames_of_concat_residual: "concat (frames_of n bs) @ residual n bs = bs"
proof (induction n bs rule: frames_of.induct)
  case (1 n bs)
  show ?case
  proof (cases "0 < n \<and> n \<le> length bs")
    case True
    then have "concat (frames_of n bs) @ residual n bs
        = take n bs @ concat (frames_of n (drop n bs)) @ residual n (drop n bs)"
      by (simp add: frames_of_step residual_step)
    also have "\<dots> = bs" using "1.IH" [OF True] by simp
    finally show ?thesis .
  next
    case False
    then show ?thesis by (simp add: frames_of_stop residual_stop)
  qed
qed

lemma frames_of_length: "f \<in> set (frames_of n bs) \<Longrightarrow> length f = n"
proof (induction n bs rule: frames_of.induct)
  case (1 n bs)
  show ?case
  proof (cases "0 < n \<and> n \<le> length bs")
    case True
    with "1.prems" have "f = take n bs \<or> f \<in> set (frames_of n (drop n bs))"
      by (simp add: frames_of_step)
    then show ?thesis using "1.IH" [OF True] True by auto
  next
    case False
    with "1.prems" show ?thesis by (simp add: frames_of_stop)
  qed
qed

lemma residual_length: "0 < n \<Longrightarrow> length (residual n bs) < n"
proof (induction n bs rule: residual.induct)
  case (1 n bs)
  show ?case
  proof (cases "n \<le> length bs")
    case True
    then show ?thesis using "1.IH" "1.prems" by (simp add: residual_step)
  next
    case False
    then show ?thesis by (simp add: residual_stop)
  qed
qed

lemma frames_of_append:
  "0 < n \<Longrightarrow> frames_of n (bs @ cs) = frames_of n bs @ frames_of n (residual n bs @ cs)"
proof (induction n bs rule: frames_of.induct)
  case (1 n bs)
  show ?case
  proof (cases "n \<le> length bs")
    case True
    then have "frames_of n (bs @ cs) = take n bs # frames_of n (drop n bs @ cs)"
      using "1.prems" by (simp add: frames_of_step)
    then show ?thesis using "1.IH" "1.prems" True
      by (simp add: frames_of_step [of n bs] residual_step [of n bs])
  next
    case False
    then show ?thesis by (simp add: frames_of_stop residual_stop)
  qed
qed

lemma residual_append:
  "0 < n \<Longrightarrow> residual n (bs @ cs) = residual n (residual n bs @ cs)"
proof (induction n bs rule: frames_of.induct)
  case (1 n bs)
  show ?case
  proof (cases "n \<le> length bs")
    case True
    then have "residual n (bs @ cs) = residual n (drop n bs @ cs)"
      using "1.prems" by (simp add: residual_step)
    then show ?thesis using "1.IH" "1.prems" True
      by (simp add: residual_step [of n bs])
  next
    case False
    then show ?thesis by (simp add: residual_stop)
  qed
qed

lemma frames_of_concat:
  "0 < n \<Longrightarrow> \<forall>f\<in>set F. length f = n \<Longrightarrow> frames_of n (concat F) = F \<and> residual n (concat F) = []"
proof (induction F)
  case Nil
  then show ?case by (simp add: frames_of_stop residual_stop)
next
  case (Cons f F)
  then show ?case by (simp add: frames_of_step residual_step)
qed

lemma on_data_terminates: "0 < frameSize d \<Longrightarrow> \<exists>t. on_data d fps chunk s = Some t"
  unfolding on_data_def by (rule slice_loop_terminates)

lemma step_terminates: "0 < frameSize d \<Longrightarrow> \<exists>t. step d fps e s = Some t"
  by (cases e) (auto simp: on_data_terminates split: list.splits)

lemma run_terminates: "0 < frameSize d \<Longrightarrow> \<exists>t. run d fps es s = Some t"
proof (induction es arbitrary: s)
  case Nil
  show ?case by simp
next
  case (Cons e es)
  from step_terminates [OF Cons.prems] obtain s' where "step d fps e s = Some s'" by blast
  then show ?case using Cons.IH [OF Cons.prems, of s'] by simp
qed

lemma run_append:
  "run d fps (es @ es') s = (case run d fps es s of None \<Rightarrow> None | Some s' \<Rightarrow> run d fps es' s')"
  by (induction es arbitrary: s) (auto split: option.splits)

text \<open>
  Claim C6. After the handler has processed a chunk, whatever events came before it, the
  accumulation buffer holds strictly fewer bytes than one frame. The handler does return
  whenever the frame size is positive.
\<close>

theorem ingestor_residual:
  "(0 < frameSize d \<longrightarrow> (\<exists>t. run d fps (es @ [Data chunk]) s = Some t)) \<and>
   (\<forall>t. run d fps (es @ [Data chunk]) s = Some t \<longrightarrow> int (length (buffer t)) < frameSize d)"
proof (intro conjI impI allI)
  assume "0 < frameSize d"
  then show "\<exists>t. run d fps (es @ [Data chunk]) s = Some t" by (rule run_terminates)
next
  fix t
  assume "run d fps (es @ [Data chunk]) s = Some t"
  then obtain s' where "on_data d fps chunk s' = Some t"
    by (auto simp: run_append split: option.splits)
  then show "int (length (buffer t)) < frameSize d"
    unfolding on_data_def by (rule slice_loop_residual)
qed

theorem ingestor_residual_witness:
  "0 < frameSize \<lparr>width = 1, height = 1\<rparr> \<and>
   (\<exists>t. run \<lparr>width = 1, height = 1\<rparr> 25 ([Timer] @ [Data [1, 2, 3, 4]]) (start []) = Some t \<and>
        int (length (buffer t)) < frameSize \<lparr>width = 1, height = 1\<rparr>)"
proof -
  have pos: "0 < frameSize \<lparr>width = 1, height = 1\<rparr>" by (simp add: frameSize_def)
  note inst = ingestor_residual [of "\<lparr>width = 1, height = 1\<rparr>" 25 "[Timer]" "[1, 2, 3, 4]" "start []"]
  from inst pos obtain t where
    "run \<lparr>width = 1, height = 1\<rparr> 25 ([Timer] @ [Data [1, 2, 3, 4]]) (start []) = Some t" by blast
  with inst pos show ?thesis by blast
qed

lemma slice_frame_eq:
  assumes "0 \<le> frameSize d"
  shows "slice_frame d fps s =
     (if isPlaying s
      then s\<lparr>buffer := drop (nat (frameSize d)) (buffer s),
             frameQueue := frameQueue s @ [take (nat (frameSize d)) (buffer s)]\<rparr>
      else playNextFrame d fps
             (s\<lparr>buffer := drop (nat (frameSize d)) (buffer s),
                frameQueue := frameQueue s @ [take (nat (frameSize d)) (buffer s)],
                isPlaying := True\<rparr>))"
  using assms by (simp add: slice_frame_def Let_def buffer_slice_head buffer_slice_tail)

lemma tracks_cong:
  "frameQueue t = frameQueue s \<Longrightarrow> stdout t = stdout s \<Longrightarrow> tracks d out F t = tracks d out F s"
  by (simp add: tracks_def)

lemma tracks_push:
  assumes "tracks d out F s" "frameQueue t = frameQueue s @ [f]" "stdout t = stdout s"
  shows "tracks d out (F @ [f]) t"
proof -
  from assms(1) obtain k where k: "k \<le> length F" "frameQueue s = drop k F"
    "stdout s = out @ concat (map (frameWrites d) (take k F))"
    unfolding tracks_def by blast
  have "frameQueue t = drop k (F @ [f])" using k assms(2) by simp
  moreover have "stdout t = out @ concat (map (frameWrites d) (take k (F @ [f])))"
    using k assms(3) by simp
  moreover have "k \<le> length (F @ [f])" using k by simp
  ultimately show ?thesis unfolding tracks_def by blast
qed

lemma tracks_playNextFrame:
  assumes "tracks d out F s"
  shows "tracks d out F (playNextFrame d fps s)"
proof (cases "frameQueue s")
  case Nil
  then show ?thesis using assms by (simp add: playNextFrame_Nil tracks_def)
next
  case (Cons g q)
  from assms obtain k where k: "k \<le> length F" "frameQueue s = drop k F"
    "stdout s = out @ concat (map (frameWrites d) (take k F))"
    unfolding tracks_def by blast
  from k Cons have lt: "k < length F" by (cases "k < length F") auto
  then have "drop k F = F ! k # drop (Suc k) F" by (simp add: Cons_nth_drop_Suc)
  with k Cons have g: "g = F ! k" and q: "q = drop (Suc k) F" by simp_all
  have tk: "take (Suc k) F = take k F @ [g]" using lt g by (simp add: take_Suc_conv_app_nth)
  note pn = playNextFrame_Cons [OF Cons, of d fps]
  have "stdout (playNextFrame d fps s) = out @ concat (map (frameWrites d) (take (Suc k) F))"
    unfolding pn tk using k(3) by simp
  moreover have "frameQueue (playNextFrame d fps s) = drop (Suc k) F"
    unfolding pn using q by simp
  moreover have "Suc k \<le> length F" using lt by simp
  ultimately show ?thesis unfolding tracks_def by blast
qed

lemma tracks_slice_frame:
  assumes "0 \<le> frameSize d" "tracks d out F s"
  shows "tracks d out (F @ [take (nat (frameSize d)) (buffer s)]) (slice_frame d fps s)"
proof (cases "isPlaying s")
  case True
  then show ?thesis using assms
    by (simp add: slice_frame_eq) (rule tracks_push [OF assms(2)], simp_all)
next
  case False
  have "tracks d out (F @ [take (nat (frameSize d)) (buffer s)])
      (s\<lparr>buffer := drop (nat (frameSize d)) (buffer s),
         frameQueue := frameQueue s @ [take (nat (frameSize d)) (buffer s)],
         isPlaying := True\<rparr>)"
    by (rule tracks_push [OF assms(2)]) simp_all
  then show ?thesis using False assms(1)
    by (simp add: slice_frame_eq tracks_playNextFrame)
qed

lemma slice_loop_tracks:
  assumes pos: "0 < frameSize d"
  shows "tracks d out F s \<Longrightarrow>
    \<exists>t. slice_loop d fps s = Some t \<and>
        tracks d out (F @ frames_of (nat (frameSize d)) (buffer s)) t \<and>
        buffer t = residual (nat (frameSize d)) (buffer s)"
proof (induction "length (buffer s)" arbitrary: s F rule: less_induct)
  case less
  define n where "n = nat (frameSize d)"
  have n: "0 < n" "int n = frameSize d" using pos by (simp_all add: n_def)
  show ?case
  proof (cases "frameSize d \<le> int (length (buffer s))")
    case True
    then have le: "n \<le> length (buffer s)" using n by simp
    let ?s = "slice_frame d fps s"
    have b: "buffer ?s = drop n (buffer s)" using pos by (simp add: slice_frame_buffer n_def)
    then have "length (buffer ?s) < length (buffer s)" using n le by simp
    moreover have "tracks d out (F @ [take n (buffer s)]) ?s"
      unfolding n_def using pos less.prems by (intro tracks_slice_frame) simp_all
    ultimately obtain t where t: "slice_loop d fps ?s = Some t"
      "tracks d out ((F @ [take n (buffer s)]) @ frames_of n (buffer ?s)) t"
      "buffer t = residual n (buffer ?s)"
      using less.hyps [of ?s "F @ [take n (buffer s)]"] unfolding n_def by blast
    have "slice_loop d fps s = Some t" using True t(1) by (subst slice_loop.simps) simp
    moreover have "tracks d out (F @ frames_of n (buffer s)) t"
      using t(2) b n le by (simp add: frames_of_step [of n "buffer s"])
    moreover have "buffer t = residual n (buffer s)"
      using t(3) b n le by (simp add: residual_step [of n "buffer s"])
    ultimately show ?thesis unfolding n_def by blast
  next
    case False
    then have lt: "length (buffer s) < n" using n by simp
    have "slice_loop d fps s = Some s" using False by (subst slice_loop.simps) simp
    then show ?thesis using less.prems lt
      unfolding n_def [symmetric] by (simp add: frames_of_stop residual_stop)
  qed
qed

lemma ingested_step:
  assumes pos: "0 < frameSize d" and inv: "ingested d out bs s"
  shows "\<exists>t. step d fps e s = Some t \<and> ingested d out (bs @ bytes_of [e]) t"
proof (cases e)
  case (Data chunk)
  define n where "n = nat (frameSize d)"
  have n: "0 < n" using pos by (simp add: n_def)
  let ?s = "s\<lparr>buffer := buffer s @ chunk\<rparr>"
  have "tracks d out (frames_of n bs) ?s" using inv by (simp add: ingested_def tracks_def n_def)
  from slice_loop_tracks [OF pos this [unfolded n_def], of fps] obtain t where
    t: "slice_loop d fps ?s = Some t"
    "tracks d out (frames_of n bs @ frames_of n (buffer ?s)) t"
    "buffer t = residual n (buffer ?s)" unfolding n_def by blast
  have bs: "buffer ?s = residual n bs @ chunk" using inv by (simp add: ingested_def n_def)
  have "ingested d out (bs @ chunk) t"
    unfolding ingested_def n_def [symmetric]
    using t(2,3) n by (simp add: bs frames_of_append [of n bs chunk] residual_append [of n bs chunk])
  then show ?thesis using t(1) Data by (simp add: on_data_def)
next
  case Timer
  show ?thesis
  proof (cases "timeouts s")
    case Nil
    then show ?thesis using Timer inv by simp
  next
    case (Cons a ts)
    have "tracks d out (frames_of (nat (frameSize d)) bs) (s\<lparr>timeouts := ts\<rparr>)"
      using inv by (simp add: ingested_def tracks_def)
    then have "tracks d out (frames_of (nat (frameSize d)) bs) (playNextFrame d fps (s\<lparr>timeouts := ts\<rparr>))"
      by (rule tracks_playNextFrame)
    then show ?thesis using Timer Cons inv by (simp add: ingested_def)
  qed
qed

lemma bytes_of_Cons: "bytes_of (e # es) = bytes_of [e] @ bytes_of es"
  by (cases e) simp_all

lemma ingested_run:
  assumes pos: "0 < frameSize d"
  shows "ingested d out bs s \<Longrightarrow> \<exists>t. run d fps es s = Some t \<and> ingested d out (bs @ bytes_of es) t"
proof (induction es arbitrary: s bs)
  case Nil
  then show ?case by simp
next
  case (Cons e es)
  from ingested_step [OF pos Cons.prems, of fps e] obtain s' where
    s': "step d fps e s = Some s'" "ingested d out (bs @ bytes_of [e]) s'" by blast
  from Cons.IH [OF s'(2)] obtain t where
    "run d fps es s' = Some t" "ingested d out ((bs @ bytes_of [e]) @ bytes_of es) t" by blast
  then show ?case using s'(1) by (simp add: bytes_of_Cons [of e es])
qed

lemma ingested_start: "ingested d out [] (start out)"
  by (simp add: ingested_def tracks_def start_def frames_of_stop residual_stop)

lemma slice_frame_append:
  assumes "0 < frameSize d" "frameSize d \<le> int (length (buffer s))"
  shows "slice_frame d fps (s\<lparr>buffer := buffer s @ c\<rparr>) =
         (slice_frame d fps s)\<lparr>buffer := buffer (slice_frame d fps s) @ c\<rparr>"
proof -
  have le: "nat (frameSize d) \<le> length (buffer s)" using assms by simp
  have pos: "0 \<le> frameSize d" using assms by simp
  show ?thesis
  proof (cases "frameQueue s")
    case Nil
    then show ?thesis using le
      by (simp add: slice_frame_eq [OF pos] playNextFrame_Cons)
  next
    case (Cons g q)
    then show ?thesis using le
      by (simp add: slice_frame_eq [OF pos] playNextFrame_Cons)
  qed
qed

lemma slice_loop_append:
  assumes pos: "0 < frameSize d"
  shows "slice_loop d fps (s\<lparr>buffer := buffer s @ c\<rparr>) =
     (case slice_loop d fps s of None \<Rightarrow> None
      | Some t \<Rightarrow> slice_loop d fps (t\<lparr>buffer := buffer t @ c\<rparr>))"
proof (induction "length (buffer s)" arbitrary: s rule: less_induct)
  case less
  show ?case
  proof (cases "frameSize d \<le> int (length (buffer s))")
    case True
    let ?s = "slice_frame d fps s"
    have "length (buffer ?s) < length (buffer s)"
      using pos True by (simp add: slice_frame_buffer)
    note ih = less [OF this]
    have "slice_loop d fps (s\<lparr>buffer := buffer s @ c\<rparr>)
        = slice_loop d fps (slice_frame d fps (s\<lparr>buffer := buffer s @ c\<rparr>))"
      using True by (subst slice_loop.simps) simp
    also have "\<dots> = slice_loop d fps (?s\<lparr>buffer := buffer ?s @ c\<rparr>)"
      by (simp only: slice_frame_append [OF pos True])
    also have "\<dots> = (case slice_loop d fps ?s of None \<Rightarrow> None
      | Some t \<Rightarrow> slice_loop d fps (t\<lparr>buffer := buffer t @ c\<rparr>))" by (rule ih)
    also have "slice_loop d fps ?s = slice_loop d fps s"
      using True by (subst (2) slice_loop.simps) simp
    finally show ?thesis .
  next
    case False
    then have "slice_loop d fps s = Some s" by (subst slice_loop.simps) simp
    then show ?thesis by simp
  qed
qed

lemma on_data_append:
  assumes "0 < frameSize d"
  shows "(case on_data d fps c1 s of None \<Rightarrow> None | Some t \<Rightarrow> on_data d fps c2 t)
       = on_data d fps (c1 @ c2) s"
  using slice_loop_append [OF assms, where fps = fps and s = "s\<lparr>buffer := buffer s @ c1\<rparr>" and c = c2]
  by (auto simp: on_data_def split: option.splits)

lemma run_data_concat:
  assumes pos: "0 < frameSize d"
  shows "int (length (buffer s)) < frameSize d \<Longrightarrow>
         run d fps (map Data cs) s = on_data d fps (concat cs) s"
proof (induction cs arbitrary: s)
  case Nil
  then have "slice_loop d fps s = Some s" by (subst slice_loop.simps) simp
  then show ?case by (simp add: on_data_def)
next
  case (Cons c cs)
  show ?case
  proof (cases "on_data d fps c s")
    case None
    then show ?thesis
      using on_data_append [OF pos, where fps = fps and ?c1.0 = c and s = s and ?c2.0 = "concat cs"] by simp
  next
    case (Some t)
    then have "int (length (buffer t)) < frameSize d"
      unfolding on_data_def by (rule slice_loop_residual)
    from Cons.IH [OF this] Some show ?thesis
      using on_data_append [OF pos, where fps = fps and ?c1.0 = c and s = s and ?c2.0 = "concat cs"] by simp
  qed
qed

text \<open>
  Claim C2. When the events deliver the bytes of \<open>N\<close> complete frames, in chunks of any
  sizes and with timeouts firing anywhere in between, the handler returns, the buffer ends
  empty, and exactly these \<open>N\<close> frames were enqueued in their order: the first \<open>k\<close> of them
  have been rendered and the remaining ones are the queue. Fed as data events alone, every
  chunking of the stream ends in the same state as the whole stream in one chunk.
\<close>

theorem ingestor_reassembly:
  assumes "0 < frameSize d"
    and "\<forall>f\<in>set frames. int (length f) = frameSize d"
    and "bytes_of es = concat frames"
  shows "(\<exists>t. run d fps es (start out) = Some t \<and> buffer t = [] \<and>
            (\<exists>k\<le>length frames. frameQueue t = drop k frames \<and>
               stdout t = out @ concat (map (frameWrites d) (take k frames)))) \<and>
         (\<forall>chunks. concat chunks = concat frames \<longrightarrow>
            run d fps (map Data chunks) (start out) = run d fps [Data (concat frames)] (start out))"
proof (intro conjI allI impI)
  define n where "n = nat (frameSize d)"
  have n: "0 < n" "\<forall>f\<in>set frames. length f = n" using assms(1,2) by (auto simp: n_def)
  from ingested_run [OF assms(1) ingested_start, where fps = fps and es = es and out = out] obtain t where
    t: "run d fps es (start out) = Some t" "ingested d out (bytes_of es) t" by auto
  from frames_of_concat [OF n] have "frames_of n (concat frames) = frames"
    "residual n (concat frames) = []" by simp_all
  with t(2) have "tracks d out frames t" "buffer t = []"
    unfolding ingested_def n_def [symmetric] assms(3) by simp_all
  with t(1) show "\<exists>t. run d fps es (start out) = Some t \<and> buffer t = [] \<and>
            (\<exists>k\<le>length frames. frameQueue t = drop k frames \<and>
               stdout t = out @ concat (map (frameWrites d) (take k frames)))"
    unfolding tracks_def by blast
next
  fix chunks :: "byte list list"
  assume c: "concat chunks = concat frames"
  have b: "int (length (buffer (start out))) < frameSize d" using assms(1) by (simp add: start_def)
  have "run d fps (map Data chunks) (start out) = on_data d fps (concat frames) (start out)"
    using run_data_concat [OF assms(1) b, where fps = fps and cs = chunks] c by simp
  also have "\<dots> = run d fps [Data (concat frames)] (start out)"
    by (simp split: option.splits)
  finally show "run d fps (map Data chunks) (start out) = run d fps [Data (concat frames)] (start out)" .
qed

lemma on_data_Some_positive:
  "on_data d fps c s = Some t \<Longrightarrow> 0 < frameSize d"
  unfolding on_data_def by (rule slice_loop_positive)

lemma run_idle:
  "\<forall>c. Data c \<notin> set es \<Longrightarrow> timeouts s = [] \<Longrightarrow> run d fps es s = Some s"
proof (induction es)
  case Nil
  show ?case by simp
next
  case (Cons e es)
  then show ?case by (cases e) auto
qed

lemma run_Some_positive:
  "run d fps es s = Some t \<Longrightarrow> Data c \<in> set es \<Longrightarrow> 0 < frameSize d"
proof (induction es arbitrary: s)
  case Nil
  then show ?case by simp
next
  case (Cons e es)
  from Cons.prems(1) obtain s' where s': "step d fps e s = Some s'" "run d fps es s' = Some t"
    by (auto split: option.splits)
  show ?case
  proof (cases "e = Data c")
    case True
    with s'(1) show ?thesis by (auto dest: on_data_Some_positive)
  next
    case False
    with Cons.prems(2) have "Data c \<in> set es" by simp
    with Cons.IH s'(2) show ?thesis by blast
  qed
qed

lemma bytes_of_no_data: "\<forall>c. Data c \<notin> set es \<Longrightarrow> bytes_of es = []"
proof (induction es)
  case Nil
  show ?case by simp
next
  case (Cons e es)
  then show ?case by (cases e) auto
qed

text \<open>
  Claim C10. After any sequence of events the frames enqueued so far (those rendered, then
  those still queued) are the frames of the received bytes, and their concatenation
  followed by the accumulation buffer is the received byte stream. The run returns
  whenever the frame size is positive.
\<close>

theorem ingestor_conservation:
  "(0 < frameSize d \<longrightarrow> (\<exists>t. run d fps es (start out) = Some t)) \<and>
   (\<forall>t. run d fps es (start out) = Some t \<longrightarrow>
      (\<exists>k\<le>length (frames_of (nat (frameSize d)) (bytes_of es)).
          frameQueue t = drop k (frames_of (nat (frameSize d)) (bytes_of es)) \<and>
          stdout t = out @ concat (map (frameWrites d) (take k (frames_of (nat (frameSize d)) (bytes_of es))))) \<and>
      concat (frames_of (nat (frameSize d)) (bytes_of es)) @ buffer t = bytes_of es)"
proof (intro conjI impI allI)
  assume "0 < frameSize d"
  then show "\<exists>t. run d fps es (start out) = Some t" by (rule run_terminates)
next
  fix t
  assume r: "run d fps es (start out) = Some t"
  have "ingested d out (bytes_of es) t"
  proof (cases "\<exists>c. Data c \<in> set es")
    case True
    with r have "0 < frameSize d" by (auto dest: run_Some_positive)
    from ingested_run [OF this ingested_start, where fps = fps and es = es and out = out] r
    show ?thesis by auto
  next
    case False
    then have nd: "\<forall>c. Data c \<notin> set es" by simp
    then have "run d fps es (start out) = Some (start out)"
      by (rule run_idle) (simp add: start_def)
    with r have "t = start out" by simp
    then show ?thesis using ingested_start [of d out] bytes_of_no_data [OF nd] by simp
  qed
  then have tr: "tracks d out (frames_of (nat (frameSize d)) (bytes_of es)) t"
    and b: "buffer t = residual (nat (frameSize d)) (bytes_of es)"
    by (simp_all add: ingested_def)
  from tr show "\<exists>k\<le>length (frames_of (nat (frameSize d)) (bytes_of es)).
          frameQueue t = drop k (frames_of (nat (frameSize d)) (bytes_of es)) \<and>
          stdout t = out @ concat (map (frameWrites d) (take k (frames_of (nat (frameSize d)) (bytes_of es))))"
    unfolding tracks_def .
  show "concat (frames_of (nat (frameSize d)) (bytes_of es)) @ buffer t = bytes_of es"
    unfolding b by (rule frames_of_concat_residual)
qed

theorem ingestor_reassembly_witness:
  "0 < frameSize \<lparr>width = 1, height = 1\<rparr> \<and>
   int (length [1, 2, 3 :: byte]) = frameSize \<lparr>width = 1, height = 1\<rparr> \<and>
   int (length [4, 5, 6 :: byte]) = frameSize \<lparr>width = 1, height = 1\<rparr> \<and>
   bytes_of [Data [1], Timer, Data [2, 3, 4, 5], Data [6]] = concat [[1, 2, 3], [4, 5, 6]] \<and>
   (\<exists>t. run \<lparr>width = 1, height = 1\<rparr> 25 [Data [1], Timer, Data [2, 3, 4, 5], Data [6]] (start []) = Some t \<and>
        buffer t = [] \<and>
        (\<exists>k\<le>length [[1, 2, 3], [4, 5, 6 :: byte]]. frameQueue t = drop k [[1, 2, 3], [4, 5, 6]] \<and>
           stdout t = [] @ concat (map (frameWrites \<lparr>width = 1, height = 1\<rparr>) (take k [[1, 2, 3], [4, 5, 6]]))))"
proof -
  have h1: "0 < frameSize \<lparr>width = 1, height = 1\<rparr>" by (simp add: frameSize_def)
  have h2: "\<forall>f\<in>set [[1, 2, 3], [4, 5, 6 :: byte]]. int (length f) = frameSize \<lparr>width = 1, height = 1\<rparr>"
    by (simp add: frameSize_def)
  have h3: "bytes_of [Data [1], Timer, Data [2, 3, 4, 5], Data [6]] = concat [[1, 2, 3], [4, 5, 6]]"
    by simp
  have h4: "int (length [1, 2, 3 :: byte]) = frameSize \<lparr>width = 1, height = 1\<rparr>"
    "int (length [4, 5, 6 :: byte]) = frameSize \<lparr>width = 1, height = 1\<rparr>"
    by (simp_all add: frameSize_def)
  from ingestor_reassembly [OF h1 h2 h3, where fps = 25 and out = "[]"] h1 h3 h4
  show ?thesis by blast
qed

theorem ingestor_conservation_witness:
  "0 < frameSize \<lparr>width = 1, height = 1\<rparr> \<and>
   (\<exists>t. run \<lparr>width = 1, height = 1\<rparr> 25 [Data [1, 2], Data [3, 4]] (start []) = Some t \<and>
        concat (frames_of (nat (frameSize \<lparr>width = 1, height = 1\<rparr>)) (bytes_of [Data [1, 2], Data [3, 4]]))
          @ buffer t = bytes_of [Data [1, 2], Data [3, 4]])"
proof -
  have h1: "0 < frameSize \<lparr>width = 1, height = 1\<rparr>" by (simp add: frameSize_def)
  note inst = ingestor_conservation [where d = "\<lparr>width = 1, height = 1\<rparr>" and fps = 25
      and es = "[Data [1, 2], Data [3, 4]]" and out = "[]"]
  from inst h1 obtain t where
    "run \<lparr>width = 1, height = 1\<rparr> 25 [Data [1, 2], Data [3, 4]] (start []) = Some t" by blast
  with inst h1 show ?thesis by blast
qed


section \<open>Properties of the Playback Scheduler\<close>

lemma paced_slice_frame: "paced fps s \<Longrightarrow> paced fps (slice_frame d fps s)"
  by (cases "frameQueue s")
     (auto simp: paced_def slice_frame_def Let_def playNextFrame_Cons split: if_splits)

lemma paced_slice_loop:
  assumes "slice_loop d fps s = Some t"
  shows "paced fps s \<longrightarrow> paced fps t"
  by (rule slice_loop.raw_induct [OF _ assms]) (auto split: if_splits simp: paced_slice_frame)

lemma paced_step: "paced fps s \<Longrightarrow> step d fps e s = Some t \<Longrightarrow> paced fps t"
proof (cases e)
  case (Data c)
  assume p: "paced fps s" and s: "step d fps e s = Some t"
  have "paced fps (s\<lparr>buffer := buffer s @ c\<rparr>)" using p by (simp add: paced_def)
  then show ?thesis using s Data paced_slice_loop [of d fps "s\<lparr>buffer := buffer s @ c\<rparr>" t]
    by (simp add: on_data_def)
next
  case Timer
  assume p: "paced fps s" and s: "step d fps e s = Some t"
  show ?thesis
  proof (cases "isPlaying s")
    case False
    with p s Timer show ?thesis by (auto simp: paced_def)
  next
    case True
    with p have ts: "timeouts s = [frameInterval fps]" by (simp add: paced_def)
    show ?thesis
    proof (cases "frameQueue s")
      case Nil
      with s Timer ts show ?thesis by (auto simp: paced_def playNextFrame_Nil)
    next
      case (Cons f q)
      with s Timer ts True show ?thesis by (auto simp: paced_def playNextFrame_Cons)
    qed
  qed
qed

lemma paced_run: "paced fps s \<Longrightarrow> run d fps es s = Some t \<Longrightarrow> paced fps t"
proof (induction es arbitrary: s)
  case Nil
  then show ?case by simp
next
  case (Cons e es)
  from Cons.prems(2) obtain s' where s': "step d fps e s = Some s'" "run d fps es s' = Some t"
    by (auto split: option.splits)
  from paced_step [OF Cons.prems(1) s'(1)] Cons.IH s'(2) show ?case by blast
qed

lemma paced_start: "paced fps (start out)"
  by (simp add: paced_def start_def)

lemma slice_loop_playing:
  assumes pos: "0 < frameSize d"
  shows "isPlaying s \<Longrightarrow>
     slice_loop d fps s =
       Some (s\<lparr>buffer := residual (nat (frameSize d)) (buffer s),
               frameQueue := frameQueue s @ frames_of (nat (frameSize d)) (buffer s)\<rparr>)"
proof (induction "length (buffer s)" arbitrary: s rule: less_induct)
  case less
  define n where "n = nat (frameSize d)"
  have n: "0 < n" "int n = frameSize d" using pos by (simp_all add: n_def)
  show ?case
  proof (cases "frameSize d \<le> int (length (buffer s))")
    case True
    then have le: "n \<le> length (buffer s)" using n by simp
    define s' where "s' = s\<lparr>buffer := drop n (buffer s), frameQueue := frameQueue s @ [take n (buffer s)]\<rparr>"
    have sf: "slice_frame d fps s = s'"
      using pos less.prems by (simp add: slice_frame_eq s'_def n_def)
    have "length (buffer s') < length (buffer s)" using n le by (simp add: s'_def)
    moreover have "isPlaying s'" using less.prems by (simp add: s'_def)
    ultimately have "slice_loop d fps s' =
       Some (s'\<lparr>buffer := residual n (buffer s'), frameQueue := frameQueue s' @ frames_of n (buffer s')\<rparr>)"
      unfolding n_def by (rule less.hyps)
    also have "s'\<lparr>buffer := residual n (buffer s'), frameQueue := frameQueue s' @ frames_of n (buffer s')\<rparr>
        = s\<lparr>buffer := residual n (buffer s), frameQueue := frameQueue s @ frames_of n (buffer s)\<rparr>"
      using n le by (simp add: s'_def frames_of_step [of n "buffer s"] residual_step [of n "buffer s"])
    finally have "slice_loop d fps (slice_frame d fps s) =
      Some (s\<lparr>buffer := residual n (buffer s), frameQueue := frameQueue s @ frames_of n (buffer s)\<rparr>)"
      unfolding sf .
    then show ?thesis using True unfolding n_def by (subst slice_loop.simps) simp
  next
    case False
    then have lt: "\<not> (0 < n \<and> n \<le> length (buffer s))" using n by simp
    have "slice_loop d fps s = Some s" using False by (subst slice_loop.simps) simp
    then show ?thesis unfolding n_def [symmetric]
      by (simp add: frames_of_stop [OF lt] residual_stop [OF lt])
  qed
qed

lemma slice_loop_idle:
  assumes pos: "0 < frameSize d"
    and idle: "\<not> isPlaying s" "frameQueue s = []" "timeouts s = []"
  shows "slice_loop d fps s =
     Some (case frames_of (nat (frameSize d)) (buffer s) of
             [] \<Rightarrow> s
           | f # fs \<Rightarrow> s\<lparr>buffer := residual (nat (frameSize d)) (buffer s), frameQueue := fs,
                        isPlaying := True, stdout := stdout s @ frameWrites d f,
                        timeouts := [frameInterval fps]\<rparr>)"
proof -
  define n where "n = nat (frameSize d)"
  have n: "0 < n" "int n = frameSize d" using pos by (simp_all add: n_def)
  show ?thesis
  proof (cases "frameSize d \<le> int (length (buffer s))")
    case True
    then have le: "n \<le> length (buffer s)" using n by simp
    define s' where "s' = s\<lparr>buffer := drop n (buffer s), frameQueue := [], isPlaying := True,
           stdout := stdout s @ frameWrites d (take n (buffer s)), timeouts := [frameInterval fps]\<rparr>"
    have sf: "slice_frame d fps s = s'"
      using pos idle by (simp add: slice_frame_eq playNextFrame_Cons s'_def n_def)
    have "isPlaying s'" by (simp add: s'_def)
    from slice_loop_playing [OF pos this, of fps]
    have "slice_loop d fps s' =
       Some (s'\<lparr>buffer := residual n (buffer s'), frameQueue := frameQueue s' @ frames_of n (buffer s')\<rparr>)"
      unfolding n_def .
    also have "s'\<lparr>buffer := residual n (buffer s'), frameQueue := frameQueue s' @ frames_of n (buffer s')\<rparr>
        = s\<lparr>buffer := residual n (buffer s), frameQueue := frames_of n (drop n (buffer s)),
            isPlaying := True, stdout := stdout s @ frameWrites d (take n (buffer s)),
            timeouts := [frameInterval fps]\<rparr>"
      using n le by (simp add: s'_def residual_step [of n "buffer s"])
    finally have "slice_loop d fps (slice_frame d fps s) = Some (s\<lparr>buffer := residual n (buffer s), frameQueue := frames_of n (drop n (buffer s)),
            isPlaying := True, stdout := stdout s @ frameWrites d (take n (buffer s)),
            timeouts := [frameInterval fps]\<rparr>)"
      unfolding sf .
    then have "slice_loop d fps s = Some (s\<lparr>buffer := residual n (buffer s), frameQueue := frames_of n (drop n (buffer s)),
            isPlaying := True, stdout := stdout s @ frameWrites d (take n (buffer s)),
            timeouts := [frameInterval fps]\<rparr>)"
      using True by (subst slice_loop.simps) simp
    then show ?thesis unfolding n_def [symmetric]
      using n le by (simp add: frames_of_step [of n "buffer s"])
  next
    case False
    then have lt: "\<not> (0 < n \<and> n \<le> length (buffer s))" using n by simp
    have "slice_loop d fps s = Some s" using False by (subst slice_loop.simps) simp
    then show ?thesis unfolding n_def [symmetric] by (simp add: frames_of_stop [OF lt])
  qed
qed

lemma on_data_paced:
  assumes pos: "0 < frameSize d" and p: "paced fps s"
  shows "on_data d fps chunk s =
     Some (if isPlaying s
           then s\<lparr>buffer := residual (nat (frameSize d)) (buffer s @ chunk),
                  frameQueue := frameQueue s @ frames_of (nat (frameSize d)) (buffer s @ chunk)\<rparr>
           else (case frames_of (nat (frameSize d)) (buffer s @ chunk) of
                   [] \<Rightarrow> s\<lparr>buffer := buffer s @ chunk\<rparr>
                 | f # fs \<Rightarrow> s\<lparr>buffer := residual (nat (frameSize d)) (buffer s @ chunk),
                              frameQueue := fs, isPlaying := True,
                              stdout := stdout s @ frameWrites d f,
                              timeouts := [frameInterval fps]\<rparr>))"
proof (cases "isPlaying s")
  case True
  then have "isPlaying (s\<lparr>buffer := buffer s @ chunk\<rparr>)" by simp
  from slice_loop_playing [OF pos this, of fps] True show ?thesis by (simp add: on_data_def)
next
  case False
  with p have "\<not> isPlaying (s\<lparr>buffer := buffer s @ chunk\<rparr>)"
    "frameQueue (s\<lparr>buffer := buffer s @ chunk\<rparr>) = []" "timeouts (s\<lparr>buffer := buffer s @ chunk\<rparr>) = []"
    by (simp_all add: paced_def)
  from slice_loop_idle [OF pos this, of fps] False show ?thesis
    by (simp add: on_data_def split: list.splits)
qed

lemma frameInterval_positive:
  "0 < fps \<Longrightarrow>
   frameInterval fps = (if 2 ^ 1024 \<le> fl (1000 / fps) then PosInfinity else Finite (fl (1000 / fps)))"
proof -
  assume "0 < fps"
  then have "0 \<le> fl (1000 / fps)" by (intro fl_nonneg) simp
  moreover have "- (2 ^ 1024) < (0::rat)" by simp
  ultimately have "\<not> fl (1000 / fps) \<le> - (2 ^ 1024)" by linarith
  then show ?thesis using \<open>0 < fps\<close> by (simp add: frameInterval_def js_divide_def Let_def)
qed

text \<open>
  Claim C5, as the code has it. For a positive frame rate and frame size, in every state
  reachable from the start of playback the scheduler is Playing exactly when one timeout
  of \<open>frameInterval = 1000 / fps\<close> milliseconds is pending, and it is Idle only with an
  empty queue. Both renders are followed by the next timeout, set \<open>frameInterval\<close> later,
  and leave the scheduler Playing whether or not the queue is then empty: the render the
  data handler makes of the first frame enqueued while Idle, and the render a timeout
  makes when it fires and the queue holds a frame. A frame enqueued while Playing is not
  rendered on arrival. When the timeout fires and the queue is empty, nothing is rendered,
  nothing is scheduled and the scheduler becomes Idle.
\<close>

theorem scheduler_transitions:
  assumes "0 < fps" and "0 < frameSize d" and "run d fps es (start out) = Some s"
  shows "frameInterval fps =
           (if 2 ^ 1024 \<le> fl (1000 / fps) then PosInfinity else Finite (fl (1000 / fps))) \<and>
         timeouts s = (if isPlaying s then [frameInterval fps] else []) \<and>
         (\<not> isPlaying s \<longrightarrow> frameQueue s = []) \<and>
         step d fps Timer s = Some
           (if isPlaying s
            then (case frameQueue s of
                    [] \<Rightarrow> s\<lparr>isPlaying := False, timeouts := []\<rparr>
                  | f # q \<Rightarrow> s\<lparr>frameQueue := q, stdout := stdout s @ frameWrites d f,
                              timeouts := [frameInterval fps]\<rparr>)
            else s) \<and>
         step d fps (Data chunk) s = Some
           (if isPlaying s
            then s\<lparr>buffer := residual (nat (frameSize d)) (buffer s @ chunk),
                   frameQueue := frameQueue s @ frames_of (nat (frameSize d)) (buffer s @ chunk)\<rparr>
            else (case frames_of (nat (frameSize d)) (buffer s @ chunk) of
                    [] \<Rightarrow> s\<lparr>buffer := buffer s @ chunk\<rparr>
                  | f # fs \<Rightarrow> s\<lparr>buffer := residual (nat (frameSize d)) (buffer s @ chunk),
                               frameQueue := fs, isPlaying := True,
                               stdout := stdout s @ frameWrites d f,
                               timeouts := [frameInterval fps]\<rparr>))"
proof -
  have p: "paced fps s" using paced_start assms(3) by (rule paced_run)
  then have 1: "timeouts s = (if isPlaying s then [frameInterval fps] else [])"
    and 2: "\<not> isPlaying s \<longrightarrow> frameQueue s = []" by (simp_all add: paced_def)
  have 3: "step d fps Timer s = Some
           (if isPlaying s
            then (case frameQueue s of
                    [] \<Rightarrow> s\<lparr>isPlaying := False, timeouts := []\<rparr>
                  | f # q \<Rightarrow> s\<lparr>frameQueue := q, stdout := stdout s @ frameWrites d f,
                              timeouts := [frameInterval fps]\<rparr>)
            else s)"
    using 1 by (cases "frameQueue s") (simp_all add: playNextFrame_Nil playNextFrame_Cons)
  note 4 = on_data_paced [OF assms(2) p, of chunk]
  note 0 = frameInterval_positive [OF assms(1)]
  from 0 1 2 3 4 show ?thesis unfolding step.simps by blast
qed

lemma on_data_one_frame:
  "run \<lparr>width = 1, height = 1\<rparr> 25 [Data [0, 0, 0]] (start []) =
     Some \<lparr>buffer = [], frameQueue = [], isPlaying = True,
           stdout = frameWrites \<lparr>width = 1, height = 1\<rparr> [0, 0, 0],
           timeouts = [frameInterval 25]\<rparr>"
proof -
  let ?d = "\<lparr>width = 1, height = 1\<rparr>"
  have fs: "frameSize ?d = 3" by (simp add: frameSize_def)
  let ?s0 = "\<lparr>buffer = [0, 0, 0 :: byte], frameQueue = [], isPlaying = False, stdout = [], timeouts = []\<rparr>"
  let ?s1 = "\<lparr>buffer = [] :: byte list, frameQueue = [], isPlaying = True,
           stdout = frameWrites ?d [0, 0, 0], timeouts = [frameInterval 25]\<rparr>"
  have a: "slice_frame ?d 25 ?s0 = ?s1"
    by (simp add: slice_frame_eq fs playNextFrame_Cons)
  have "slice_loop ?d 25 ?s1 = Some ?s1" by (subst slice_loop.simps) (simp add: fs)
  then have "slice_loop ?d 25 ?s0 = Some ?s1" by (subst slice_loop.simps) (simp add: fs a)
  then show ?thesis by (simp add: on_data_def start_def)
qed

lemma frameInterval_25: "frameInterval 25 = Finite 40"
  using fl_of_int [of 40] by (simp add: frameInterval_def js_divide_def)

theorem scheduler_transitions_witness:
  "step \<lparr>width = 1, height = 1\<rparr> 25 Timer
     \<lparr>buffer = [], frameQueue = [], isPlaying = True,
      stdout = frameWrites \<lparr>width = 1, height = 1\<rparr> [0, 0, 0], timeouts = [Finite 40]\<rparr> =
     Some \<lparr>buffer = [], frameQueue = [], isPlaying = False,
           stdout = frameWrites \<lparr>width = 1, height = 1\<rparr> [0, 0, 0], timeouts = []\<rparr> \<and>
   step \<lparr>width = 1, height = 1\<rparr> 25 (Data [1, 2, 3, 4])
     \<lparr>buffer = [], frameQueue = [], isPlaying = True,
      stdout = frameWrites \<lparr>width = 1, height = 1\<rparr> [0, 0, 0], timeouts = [Finite 40]\<rparr> =
     Some \<lparr>buffer = [4], frameQueue = [[1, 2, 3]], isPlaying = True,
           stdout = frameWrites \<lparr>width = 1, height = 1\<rparr> [0, 0, 0], timeouts = [Finite 40]\<rparr>"
proof -
  have h1: "(0::rat) < 25" by simp
  have h2: "0 < frameSize \<lparr>width = 1, height = 1\<rparr>" by (simp add: frameSize_def)
  have n: "nat (frameSize \<lparr>width = 1, height = 1\<rparr>) = 3" by (simp add: frameSize_def)
  have f: "frames_of 3 [1, 2, 3, 4 :: byte] = [[1, 2, 3]]" "residual 3 [1, 2, 3, 4 :: byte] = [4]"
    by (simp_all add: frames_of_step residual_step frames_of_stop residual_stop)
  have i: "fl 40 = 40" using fl_of_int [of 40] by simp
  from scheduler_transitions [OF h1 h2 on_data_one_frame, of "[1, 2, 3, 4]"]
  show ?thesis by (simp add: n f i frameInterval_25)
qed

text \<open>
  The claim as worded fails: after the only frame has been rendered the queue is empty,
  yet the scheduler is still Playing and a further call of \<open>playNextFrame\<close> is scheduled
  40 milliseconds later.
\<close>

theorem scheduler_idle_counterexample:
  "run \<lparr>width = 1, height = 1\<rparr> 25 [Data [0, 0, 0]] (start []) =
     Some \<lparr>buffer = [], frameQueue = [], isPlaying = True,
           stdout = frameWrites \<lparr>width = 1, height = 1\<rparr> [0, 0, 0],
           timeouts = [Finite 40]\<rparr>"
  using on_data_one_frame by (simp add: frameInterval_25)

section \<open>Properties of the Frame Renderer\<close>

lemma row_loop_eq:
  "row_loop fb w y x out = out @ concat (map (\<lambda>i. pixelText fb ((y * w + i) * 3)) [x..w - 1])"
proof (induction fb w y x out rule: row_loop.induct)
  case (1 fb w y x out)
  show ?case
  proof (cases "x < w")
    case True
    then have "[x..w - 1] = x # [x + 1..w - 1]" by (simp add: upto_rec1)
    then show ?thesis using "1.IH" [OF True] True by (subst row_loop.simps) simp
  next
    case False
    then show ?thesis by (subst row_loop.simps) simp
  qed
qed

lemma frame_loop_eq:
  "frame_loop fb w h y out =
     out @ concat (map (\<lambda>j. concat (map (\<lambda>i. pixelText fb ((j * w + i) * 3)) [0..w - 1])
                            @ RESET @ [CHR 0x0A])
                      [y..h - 1])"
proof (induction fb w h y out rule: frame_loop.induct)
  case (1 fb w h y out)
  show ?case
  proof (cases "y < h")
    case True
    then have "[y..h - 1] = y # [y + 1..h - 1]" by (simp add: upto_rec1)
    then show ?thesis using "1.IH" [OF True] True
      by (subst frame_loop.simps) (simp add: row_loop_eq)
  next
    case False
    then show ?thesis by (subst frame_loop.simps) simp
  qed
qed

lemma pixelText_in_range:
  assumes "0 \<le> i" "i + 2 < int (length fb)"
  shows "pixelText fb i =
     cell (uint (fb ! nat i), uint (fb ! nat (i + 1)), uint (fb ! nat (i + 2)))"
proof -
  have b: "byteAt fb i = Some (uint (fb ! nat i))" "byteAt fb (i + 1) = Some (uint (fb ! nat (i + 1)))"
    "byteAt fb (i + 2) = Some (uint (fb ! nat (i + 2)))"
    using assms by (simp_all add: byteAt_def)
  have "glyph (uint (fb ! nat i)) (uint (fb ! nat (i + 1))) (uint (fb ! nat (i + 2)))
      = Some (ASCII_CHARS ! nat (charIndex (brightness (uint (fb ! nat i)) (uint (fb ! nat (i + 1))) (uint (fb ! nat (i + 2))))))"
    using uint_byte by (intro glyph_in_range) simp_all
  then show ?thesis by (simp add: pixelText_def b cell_def Let_def)
qed

lemma index_in_range:
  fixes w h x y :: int
  assumes "0 \<le> y" "y < h" "0 \<le> x" "x < w"
  shows "0 \<le> (y * w + x) * 3 \<and> (y * w + x) * 3 + 2 < w * h * 3"
proof -
  have "0 \<le> y * w" using assms by simp
  moreover have "(y + 1) * w \<le> h * w" using assms by (intro mult_right_mono) simp_all
  then have "y * w + w \<le> w * h" by (simp add: algebra_simps)
  ultimately show ?thesis using assms by simp
qed

lemma frame_loop_frameText:
  assumes "int (length fb) = w * h * 3"
  shows "frame_loop fb w h 0 [] = frameText fb w h"
proof -
  have "pixelText fb ((y * w + x) * 3) = cell (pixel fb w y x)"
    if "y \<in> set [0..h - 1]" "x \<in> set [0..w - 1]" for x y
  proof -
    from that have "0 \<le> y" "y < h" "0 \<le> x" "x < w" by simp_all
    from index_in_range [OF this] assms show ?thesis
      by (simp add: pixelText_in_range pixel_def)
  qed
  then show ?thesis
    unfolding frame_loop_eq frameText_def
    by (auto intro!: arg_cong [where f = concat] map_cong)
qed

lemma digit_not_newline: "d < 10 \<Longrightarrow> char_of (48 + d :: nat) \<noteq> CHR 0x0A"
proof
  assume d: "d < 10" and "char_of (48 + d) = CHR 0x0A"
  then have "(of_char (char_of (48 + d)) :: nat) = of_char (CHR 0x0A)" by simp
  then show False using d by simp
qed

lemma natToString_no_newline: "CHR 0x0A \<notin> set (natToString n)"
proof (induction n rule: natToString.induct)
  case (1 n)
  show ?case
  proof (cases "n < 10")
    case True
    then show ?thesis using digit_not_newline [of n] by (subst natToString.simps) auto
  next
    case False
    have "n mod 10 < 10" by simp
    from digit_not_newline [OF this] "1.IH" [OF False] False show ?thesis
      by (subst natToString.simps) auto
  qed
qed

lemma intToString_no_newline: "CHR 0x0A \<notin> set (intToString i)"
  by (simp add: intToString_def natToString_no_newline)

lemma ramp_no_newline: "i < 10 \<Longrightarrow> ASCII_CHARS ! i \<noteq> CHR 0x0A"
proof -
  assume "i < 10"
  then have "ASCII_CHARS ! i \<in> set ASCII_CHARS" by (intro nth_mem) (simp add: ramp_length)
  then show ?thesis by (auto simp: ASCII_CHARS_def)
qed

lemma cell_no_newline: "CHR 0x0A \<notin> set (cell (pixel fb w y x))"
proof -
  obtain r g b :: byte where p: "pixel fb w y x = (uint r, uint g, uint b)"
    by (simp add: pixel_def)
  have "0 \<le> charIndex (brightness (uint r) (uint g) (uint b)) \<and>
        charIndex (brightness (uint r) (uint g) (uint b)) \<le> 9"
    using uint_byte by (intro charIndex_range) simp_all
  then have "nat (charIndex (brightness (uint r) (uint g) (uint b))) < 10" by linarith
  from ramp_no_newline [OF this] show ?thesis
    by (auto simp: p cell_def intToString_no_newline)
qed

lemma frameText_lines: "length (filter (\<lambda>c. c = CHR 0x0A) (frameText fb w h)) = nat h"
proof -
  have line: "filter (\<lambda>c. c = CHR 0x0A)
      (concat (map (\<lambda>x. cell (pixel fb w y x)) [0..w - 1]) @ RESET @ [CHR 0x0A]) = [CHR 0x0A]" for y
  proof -
    have "filter (\<lambda>c. c = CHR 0x0A) (concat (map (\<lambda>x. cell (pixel fb w y x)) [0..w - 1])) = []"
      using cell_no_newline by (auto simp: filter_empty_conv)
    then show ?thesis by (simp add: RESET_def)
  qed
  have "filter (\<lambda>c. c = CHR 0x0A) (frameText fb w h) = concat (map (\<lambda>y. [CHR 0x0A]) [0..h - 1])"
    unfolding frameText_def filter_concat map_map comp_def line ..
  then show ?thesis by (simp add: length_concat comp_def sum_list_triv)
qed

text \<open>
  Claim C8. Rendering a frame makes exactly two calls on the standard output, whatever the
  size of the raster: the cursor-home sequence, then one write of the whole assembled
  block. Nothing else of the state changes.
\<close>

theorem render_write_discipline:
  "renderFrame frameBuffer w h s =
     s\<lparr>stdout := stdout s @ [Write (CHR 0x1B # ''[H''), Write (frame_loop frameBuffer w h 0 [])]\<rparr> \<and>
   length (stdout (renderFrame frameBuffer w h s)) = length (stdout s) + 2"
  by (simp add: renderFrame_eq)

text \<open>
  Claim C9. For a frame buffer of exactly \<open>w * h * 3\<close> bytes the assembled block is, row
  after row, the pixels of the row from left to right, each as its colour-set escape
  sequence immediately followed by its glyph, then the reset sequence and the newline;
  the block has one line per row.
\<close>

theorem frame_format:
  assumes "int (length frameBuffer) = w * h * 3"
  shows "frame_loop frameBuffer w h 0 [] =
           concat (map (\<lambda>y. concat (map (\<lambda>x. cell (pixel frameBuffer w y x)) [0..w - 1])
                              @ RESET @ [CHR 0x0A])
                   [0..h - 1]) \<and>
         length (filter (\<lambda>c. c = CHR 0x0A) (frame_loop frameBuffer w h 0 [])) = nat h"
  using frame_loop_frameText [OF assms] frameText_lines [of frameBuffer w h]
  by (simp add: frameText_def)

lemma natToString_16: "natToString 16 = ''16''" and natToString_231: "natToString 231 = ''231''"
  by code_simp+

theorem frame_format_witness:
  "frame_loop [0, 0, 0, 255, 255, 255] 2 1 0 [] =
     CHR 0x1B # ''[38;5;16m '' @ CHR 0x1B # ''[38;5;231m@'' @ CHR 0x1B # ''[0m'' @ [CHR 0x0A]"
proof -
  have h: "int (length [0, 0, 0, 255, 255, 255 :: byte]) = 2 * 1 * 3" by simp
  have u: "[0..(1::int)] = [0, 1]" "[0..(0::int)] = [0]" by (simp_all add: upto_rec1)
  have c: "rgbToAnsi256 0 0 0 = 16" "rgbToAnsi256 255 255 255 = 231"
    by (simp_all add: rgbToAnsi256_spec ansi256_spec_values)
  from frame_format [OF h] show ?thesis
    by (simp add: u pixel_def cell_def c intToString_def natToString_16 natToString_231
        brightness_black brightness_white charIndex_0 charIndex_1 ASCII_CHARS_def RESET_def)
qed

section \<open>Properties of the Dimension Fitter\<close>

lemma fl_pow2_neg53: "fl (1 / 2 ^ 53) = 1 / 2 ^ 53"
  using fl_exact [of 1 "- 53"] by (simp add: power_int_minus)

lemma of_int_bounds:
  fixes a :: int
  assumes "0 < a" "a < 2 ^ 53"
  shows "(1::rat) \<le> of_int a" "(of_int a :: rat) \<le> 2 ^ 53" "(0::rat) < of_int a"
proof -
  have "(of_int 1 :: rat) \<le> of_int a" using assms(1) by (simp only: of_int_le_iff)
  then show "(1::rat) \<le> of_int a" by simp
  have "(of_int a :: rat) \<le> of_int (2 ^ 53)" using assms(2) by (simp only: of_int_le_iff)
  then show "(of_int a :: rat) \<le> 2 ^ 53" by simp
  show "(0::rat) < of_int a" using assms(1) by simp
qed

lemma aspect_positive:
  fixes a b :: int
  assumes "0 < a" "a < 2 ^ 53" "0 < b" "b < 2 ^ 53"
  shows "0 < fl (of_int a / of_int b)"
proof -
  note A = of_int_bounds [OF assms(1,2)] and B = of_int_bounds [OF assms(3,4)]
  have "(1::rat) / 2 ^ 53 \<le> of_int a / of_int b"
    using A B by (intro frac_le) simp_all
  then have "fl (1 / 2 ^ 53) \<le> fl (of_int a / of_int b)" by (rule fl_mono)
  then show ?thesis unfolding fl_pow2_neg53 by simp
qed

text \<open>The first fit: the height for the full width.\<close>

lemma fitter_unfold:
  assumes "columns \<noteq> 0" "rows \<noteq> 0"
  shows "calculateAspectRatioDimensions (Some columns) (Some rows) videoWidth videoHeight =
    (if \<lfloor>fl (fl (of_int columns * (1 / 2)) / fl (of_int videoWidth / of_int videoHeight))\<rfloor> > rows - 2
     then \<lparr>width = \<lfloor>fl (fl (of_int (rows - 2) * fl (of_int videoWidth / of_int videoHeight)) / (1 / 2))\<rfloor>,
           height = rows - 2\<rparr>
     else \<lparr>width = columns,
           height = \<lfloor>fl (fl (of_int columns * (1 / 2)) / fl (of_int videoWidth / of_int videoHeight))\<rfloor>\<rparr>)"
  using assms
  by (simp add: calculateAspectRatioDimensions_def getTerminalSize_def Let_def
      js_floor_def js_div_def js_mul_def del: of_int_diff)

lemma fitter_bounds_aux:
  fixes a b c r :: int
  assumes a: "0 < a" "a < 2 ^ 53" and b: "0 < b" "b < 2 ^ 53"
    and c: "0 < c" "c < 2 ^ 53" and r: "0 < r" "r < 2 ^ 53"
  defines "ar \<equiv> fl (of_int a / of_int b)"
  defines "h0 \<equiv> fl (of_int c * (1 / 2))"
  assumes gt: "r - 2 < \<lfloor>fl (h0 / ar)\<rfloor>"
  shows "\<lfloor>fl (fl (of_int (r - 2) * ar) / (1 / 2))\<rfloor> \<le> c"
proof -
  have ar: "0 < ar" unfolding ar_def using a b by (rule aspect_positive)
  have h0: "h0 = of_int c / 2" unfolding h0_def using fl_half_int [of c] c by simp
  have m: "fl (of_int (r - 2)) = of_int (r - 2)" using r by (intro fl_of_int) simp
  have le: "of_int (r - 2) * ar \<le> h0"
  proof (rule ccontr)
    assume "\<not> of_int (r - 2) * ar \<le> h0"
    then have "h0 / ar \<le> of_int (r - 2)" using ar by (simp add: field_simps)
    then have "fl (h0 / ar) \<le> fl (of_int (r - 2))" by (rule fl_mono)
    then have "fl (h0 / ar) \<le> of_int (r - 2)" unfolding m .
    then have "\<lfloor>fl (h0 / ar)\<rfloor> \<le> r - 2" by (simp add: floor_le_iff del: of_int_diff)
    with gt show False by simp
  qed
  then have "fl (of_int (r - 2) * ar) \<le> fl h0" by (rule fl_mono)
  also have "fl h0 = h0" unfolding h0 using fl_half_int [of c] c by simp
  finally have "fl (of_int (r - 2) * ar) / (1 / 2) \<le> of_int c" by (simp add: h0)
  then have "fl (fl (of_int (r - 2) * ar) / (1 / 2)) \<le> fl (of_int c)" by (rule fl_mono)
  also have "fl (of_int c) = of_int c" using c by (intro fl_of_int) simp
  finally show ?thesis by (simp add: floor_le_iff)
qed


lemma fitter_positive_first:
  fixes a b c :: int
  assumes a: "0 < a" "a < 2 ^ 53" and b: "0 < b" "b < 2 ^ 53"
    and c: "0 < c" "c < 2 ^ 53" and wide: "2 * a \<le> c * b"
  shows "1 \<le> \<lfloor>fl (fl (of_int c * (1 / 2)) / fl (of_int a / of_int b))\<rfloor>"
proof -
  define ar where "ar = fl (of_int a / of_int b)"
  have ar: "0 < ar" unfolding ar_def using a b by (rule aspect_positive)
  have h0: "fl (of_int c * (1 / 2)) = of_int c / 2" using fl_half_int [of c] c by simp
  note B = of_int_bounds [OF b]
  have "(of_int (2 * a) :: rat) \<le> of_int (c * b)" using wide by (simp only: of_int_le_iff)
  then have "(of_int a :: rat) / of_int b \<le> of_int c / 2" using B by (simp add: field_simps)
  then have "ar \<le> fl (of_int c / 2)" unfolding ar_def by (rule fl_mono)
  also have "\<dots> = of_int c / 2" using fl_half_int [of c] c by simp
  finally have "1 \<le> (of_int c / 2) / ar" using ar by simp
  then have "fl 1 \<le> fl ((of_int c / 2) / ar)" by (rule fl_mono)
  then have "1 \<le> fl ((of_int c / 2) / ar)" by simp
  then show ?thesis unfolding h0 ar_def [symmetric] by (simp add: le_floor_iff)
qed

text \<open>
  The second fit: the width for the full height. The rounded quotient is at most one part
  in \<open>2 ^ 53\<close> below the aspect ratio, which a height of the video strictly below
  \<open>2 * (rows - 2)\<close> times its width absorbs.
\<close>

lemma fitter_positive_tall:
  fixes a b m :: int
  assumes a: "0 < a" "a < 2 ^ 53" and b: "0 < b" "b < 2 ^ 53"
    and m: "1 \<le> m" and tall: "b < 2 * m * a"
  shows "1 \<le> \<lfloor>fl (fl (of_int m * fl (of_int a / of_int b)) / (1 / 2))\<rfloor>"
proof -
  define x :: rat where "x = of_int a / of_int b"
  define y where "y = fl x"
  define M :: rat where "M = of_int m"
  note A = of_int_bounds [OF a] and B = of_int_bounds [OF b]
  have x0: "0 < x" using A B by (simp add: x_def)
  have "(1::rat) / 2 ^ 53 \<le> x" unfolding x_def using A B by (intro frac_le) simp_all
  moreover have "(2::rat) powi (- 1022) \<le> 1 / 2 ^ 53" by (simp add: power_int_minus)
  ultimately have "2 powi (- 1022) \<le> \<bar>x\<bar>" using x0 by simp
  from fl_rel_error [OF this] have "\<bar>y - x\<bar> \<le> \<bar>x\<bar> / 2 ^ 53" by (simp only: y_def)
  then have "\<bar>y - x\<bar> \<le> x / 2 ^ 53" using x0 by (simp only: abs_of_pos)
  then have "x - x / 2 ^ 53 \<le> y" by linarith
  moreover have "x * ((2 ^ 53 - 1) / 2 ^ 53) = x - x / 2 ^ 53" by (simp add: field_simps)
  ultimately have y: "x * ((2 ^ 53 - 1) / 2 ^ 53) \<le> y" by (simp only:)
  have M1: "1 \<le> M" unfolding M_def using m by (metis of_int_1 of_int_le_iff)
  have "b + 1 \<le> 2 * m * a" using tall by simp
  then have "(of_int (b + 1) :: rat) \<le> of_int (2 * m * a)" by (simp only: of_int_le_iff)
  then have "(of_int b + 1 :: rat) \<le> 2 * M * of_int a" by (simp add: M_def)
  then have "(of_int b + 1) / of_int b \<le> (2 * M * of_int a) / (of_int b :: rat)"
    using B by (intro divide_right_mono) simp_all
  also have "\<dots> = 2 * M * x" by (simp add: x_def)
  finally have X: "(of_int b + 1) / of_int b \<le> 2 * M * x" .
  define K :: rat where "K = 2 ^ 53"
  have K: "1 < K" by (simp add: K_def)
  have "(of_int (b + 1) :: rat) \<le> of_int (2 ^ 53)" using b by (simp only: of_int_le_iff)
  then have b53: "(of_int b :: rat) \<le> K - 1" by (simp add: K_def)
  have "K * of_int b \<le> (of_int b + 1) * (K - 1)"
    using b53 by (simp add: algebra_simps)
  then have "K / (K - 1) \<le> (of_int b + 1) / of_int b"
    using B K by (simp add: field_simps)
  with X have X': "K / (K - 1) \<le> 2 * M * x" by (rule order_trans [rotated])
  have y': "x * ((K - 1) / K) \<le> y" using y by (simp only: K_def)
  have "1 = (K / (K - 1)) * ((K - 1) / K)" using K by simp
  also have "\<dots> \<le> (2 * M * x) * ((K - 1) / K)"
    using X' K by (intro mult_right_mono) simp_all
  also have "\<dots> = 2 * M * (x * ((K - 1) / K))" by simp
  also have "\<dots> \<le> 2 * M * y" using y' M1 by (intro mult_left_mono) simp_all
  finally have "1 / 2 \<le> M * y" by simp
  then have "fl (1 / 2) \<le> fl (M * y)" by (rule fl_mono)
  then have "1 \<le> fl (M * y) / (1 / 2)" by simp
  then have "fl 1 \<le> fl (fl (M * y) / (1 / 2))" by (rule fl_mono)
  then show ?thesis unfolding M_def y_def x_def by (simp add: le_floor_iff)
qed

text \<open>
  Claim C1, as the code has it. For positive integer inputs (below \<open>2 ^ 53\<close>, so that
  they are doubles) the fitted raster is never wider than the terminal and never higher
  than the terminal less two rows. Nothing clamps it from below. The width is at least 1
  when the video is less than \<open>2 * (rows - 2)\<close> times as high as it is wide, which needs a
  terminal of three rows or more; the height is at least 1 when the terminal has three
  rows or more and the video is at most \<open>columns / 2\<close> times as wide as it is high.
\<close>

theorem fitter_bounds:
  assumes "0 < videoWidth" "videoWidth < 2 ^ 53" and "0 < videoHeight" "videoHeight < 2 ^ 53"
    and "0 < columns" "columns < 2 ^ 53" and "0 < rows" "rows < 2 ^ 53"
  shows "width (calculateAspectRatioDimensions (Some columns) (Some rows) videoWidth videoHeight) \<le> columns \<and>
         height (calculateAspectRatioDimensions (Some columns) (Some rows) videoWidth videoHeight) \<le> rows - 2 \<and>
         (videoHeight < 2 * (rows - 2) * videoWidth \<longrightarrow>
            1 \<le> width (calculateAspectRatioDimensions (Some columns) (Some rows) videoWidth videoHeight)) \<and>
         (3 \<le> rows \<and> 2 * videoWidth \<le> columns * videoHeight \<longrightarrow>
            1 \<le> height (calculateAspectRatioDimensions (Some columns) (Some rows) videoWidth videoHeight))"
proof -
  let ?h1 = "\<lfloor>fl (fl (of_int columns * (1 / 2)) / fl (of_int videoWidth / of_int videoHeight))\<rfloor>"
  let ?w2 = "\<lfloor>fl (fl (of_int (rows - 2) * fl (of_int videoWidth / of_int videoHeight)) / (1 / 2))\<rfloor>"
  have nz: "columns \<noteq> 0" "rows \<noteq> 0" using assms by simp_all
  note eq = fitter_unfold [OF nz, of videoWidth videoHeight]
  show ?thesis
  proof (cases "rows - 2 < ?h1")
    case True
    then have d: "calculateAspectRatioDimensions (Some columns) (Some rows) videoWidth videoHeight
        = \<lparr>width = ?w2, height = rows - 2\<rparr>"
      unfolding eq by simp
    have 1: "?w2 \<le> columns" using assms True by (intro fitter_bounds_aux) simp_all
    have 2: "1 \<le> ?w2" if t: "videoHeight < 2 * (rows - 2) * videoWidth"
    proof -
      have "1 \<le> rows - 2"
      proof (rule ccontr)
        assume "\<not> 1 \<le> rows - 2"
        then have "rows - 2 \<le> 0" by simp
        then have "(rows - 2) * videoWidth \<le> 0 * videoWidth"
          using assms(1) by (intro mult_right_mono) simp_all
        then have "(rows - 2) * videoWidth \<le> 0" by simp
        moreover have "2 * (rows - 2) * videoWidth = 2 * ((rows - 2) * videoWidth)"
          by (rule mult.assoc)
        ultimately show False using t assms(3) by linarith
      qed
      with assms t show ?thesis by (intro fitter_positive_tall) simp_all
    qed
    show ?thesis unfolding d using 1 2 by auto
  next
    case False
    then have d: "calculateAspectRatioDimensions (Some columns) (Some rows) videoWidth videoHeight
        = \<lparr>width = columns, height = ?h1\<rparr>"
      unfolding eq by simp
    have 2: "1 \<le> ?h1" if "2 * videoWidth \<le> columns * videoHeight"
      using assms that by (intro fitter_positive_first) simp_all
    show ?thesis unfolding d using False 2 assms by auto
  qed
qed

theorem fitter_bounds_witness:
  "width (calculateAspectRatioDimensions (Some 80) (Some 24) 1920 1080) \<le> 80 \<and>
   height (calculateAspectRatioDimensions (Some 80) (Some 24) 1920 1080) \<le> 24 - 2 \<and>
   1 \<le> width (calculateAspectRatioDimensions (Some 80) (Some 24) 1920 1080) \<and>
   1 \<le> height (calculateAspectRatioDimensions (Some 80) (Some 24) 1920 1080) \<and>
   width (calculateAspectRatioDimensions (Some 80) (Some 24) 1080 2400) \<le> 80 \<and>
   height (calculateAspectRatioDimensions (Some 80) (Some 24) 1080 2400) \<le> 24 - 2 \<and>
   1 \<le> width (calculateAspectRatioDimensions (Some 80) (Some 24) 1080 2400) \<and>
   1 \<le> height (calculateAspectRatioDimensions (Some 80) (Some 24) 1080 2400)"
  using fitter_bounds [of 1920 1080 80 24] fitter_bounds [of 1080 2400 80 24] by simp

lemma fl_small_exact [simp]: "fl 80 = 80" "fl 40 = 40"
  using fl_of_int [of 80] fl_of_int [of 40] by simp_all

text \<open>Rasters with an empty side, on terminals of 80 columns.\<close>

lemma fitter_wide_strip:
  "calculateAspectRatioDimensions (Some 80) (Some 24) 8000 100 = \<lparr>width = 80, height = 0\<rparr>"
proof -
  have "\<lfloor>(1::rat) / 2\<rfloor> = 0" by (rule floor_unique) simp_all
  then show ?thesis by (simp add: fitter_unfold)
qed

lemma fitter_tall_strip:
  "calculateAspectRatioDimensions (Some 80) (Some 24) 1 1024 = \<lparr>width = 0, height = 22\<rparr>"
proof -
  have 1: "fl (1 / 1024) = 1 / 1024" using fl_exact [of 1 "- 10"] by (simp add: power_int_minus)
  have 2: "fl 40960 = 40960" using fl_of_int [of 40960] by simp
  have 3: "fl (11 / 512) = 11 / 512" using fl_exact [of 11 "- 9"] by (simp add: power_int_minus)
  have 4: "fl (11 / 256) = 11 / 256" using fl_exact [of 11 "- 8"] by (simp add: power_int_minus)
  have 5: "\<lfloor>(11::rat) / 256\<rfloor> = 0" by (rule floor_unique) simp_all
  show ?thesis by (simp add: fitter_unfold 1 2 3 4 5)
qed

lemma fitter_two_rows:
  "calculateAspectRatioDimensions (Some 80) (Some 2) 640 640 = \<lparr>width = 0, height = 0\<rparr>"
  by (simp add: fitter_unfold)

lemma fitter_boundary:
  "calculateAspectRatioDimensions (Some 80) (Some 51) 1 98 = \<lparr>width = 0, height = 49\<rparr>"
proof -
  have 1: "fl (1 / 98) = 5882252574524729 / 576460752303423488"
    using fl_eqI [where e = "- 7" and n = 5882252574524729 and x = "1 / 98"]
    by (simp add: power_int_minus)
  have 2: "fl (40 / (5882252574524729 / 576460752303423488)) = 8620171161763841 / 2199023255552"
    using fl_eqI [where e = 11 and n = 8620171161763841
        and x = "40 / (5882252574524729 / 576460752303423488)"]
    by (simp add: power_int_minus)
  have 3: "fl (49 * (5882252574524729 / 576460752303423488)) = 9007199254740991 / 18014398509481984"
    using fl_eqI [where e = "- 2" and n = 9007199254740991
        and x = "49 * (5882252574524729 / 576460752303423488)"]
    by (simp add: power_int_minus)
  have 4: "fl ((9007199254740991 / 18014398509481984) / (1 / 2)) = 9007199254740991 / 9007199254740992"
    using fl_eqI [where e = "- 1" and n = 9007199254740991
        and x = "(9007199254740991 / 18014398509481984) / (1 / 2)"]
    by (simp add: power_int_minus)
  have 5: "\<lfloor>8620171161763841 / 2199023255552 :: rat\<rfloor> = 3920" by (rule floor_unique) simp_all
  have 6: "\<lfloor>9007199254740991 / 9007199254740992 :: rat\<rfloor> = 0" by (rule floor_unique) simp_all
  have h0: "fl (of_int 80 * (1 / 2)) = 40" by simp
  have "calculateAspectRatioDimensions (Some 80) (Some 51) 1 98 =
    (if \<lfloor>fl (fl (of_int 80 * (1 / 2)) / fl (of_int 1 / of_int 98))\<rfloor> > 51 - 2
     then \<lparr>width = \<lfloor>fl (fl (of_int (51 - 2) * fl (of_int 1 / of_int 98)) / (1 / 2))\<rfloor>,
           height = 51 - 2\<rparr>
     else \<lparr>width = 80,
           height = \<lfloor>fl (fl (of_int 80 * (1 / 2)) / fl (of_int 1 / of_int 98))\<rfloor>\<rparr>)"
    by (rule fitter_unfold) simp_all
  also have "(of_int 1 :: rat) / of_int 98 = 1 / 98" by simp
  also have "(of_int (51 - 2) :: rat) = 49" by simp
  finally show ?thesis unfolding h0 1 2 3 4 5 6 by simp
qed

text \<open>
  The lower bound of the claim fails on either side. On the default terminal of 80 by 24
  a strip of 8000 by 100 pixels gets a raster of height 0, and a strip of 1 by 1024 pixels
  a raster of width 0. On 51 rows a video of 1 by 98 pixels, whose height is exactly
  \<open>2 * (rows - 2)\<close> times its width, gets the width 0: the quotient \<open>1 / 98\<close> is rounded
  down. On 2 rows a square video gets a raster of 0 by 0.
\<close>

theorem fitter_minimum_counterexample:
  "calculateAspectRatioDimensions (Some 80) (Some 24) 8000 100 = \<lparr>width = 80, height = 0\<rparr> \<and>
   calculateAspectRatioDimensions (Some 80) (Some 24) 1 1024 = \<lparr>width = 0, height = 22\<rparr> \<and>
   calculateAspectRatioDimensions (Some 80) (Some 51) 1 98 = \<lparr>width = 0, height = 49\<rparr> \<and>
   calculateAspectRatioDimensions (Some 80) (Some 2) 640 640 = \<lparr>width = 0, height = 0\<rparr>"
  using fitter_wide_strip fitter_tall_strip fitter_boundary fitter_two_rows by simp


section \<open>Properties of the program\<close>

































end
